theory Spec2Isabelle
  imports Main
begin

section \<open>Data model of the bottle controller\<close>

text \<open>
  The embedded source is the \<open>Bottle\<close> class (\<open>Bottle::turn_to\<close>, \<open>turn_up\<close>,
  \<open>turn_down\<close>, \<open>get_pause_pos\<close>, \<open>turn_to_pause_pos\<close>, \<open>pour\<close>).
  C++ \<open>int\<close> values are modelled as HOL integers. The \<open>int\<close> of the target (an
  ATmega2560) is 16 bits wide: the arithmetic on servo positions stays far inside that
  range for positions in \<open>[SERVO_MIN, SERVO_MAX]\<close>, and the arithmetic of \<open>pour\<close>
  on weights, which come unchecked from the scale (the weight it waits for and the
  amount it reports), is computed at that width (\<open>wrap_int16\<close>). The model is the
  build with a scale (\<open>WITHOUT_SCALE\<close> is not defined).
  Debug output (the \<open>DEBUG_*\<close> macros, which print on the serial line when \<open>DEBUG\<close>
  is defined) is not part of the model.
\<close>

text \<open>
  Modelled from the spec: the header \<open>errors.h\<close> is missing. \<open>errv_t\<close> is an
  enumeration of result codes in which zero (\<open>NO_ERROR\<close>) means success; the
  constructors are the codes named in the source, and \<open>OTHER_ERROR\<close> stands for
  every remaining code (for instance the other failures of the scale driver).
\<close>

datatype errv_t =
    NO_ERROR
  | SERVO_OUT_OF_RANGE
  | WEIGHT_NOT_STABLE
  | WHERE_THE_FUCK_IS_THE_CUP
  | BOTTLE_EMPTY
  | ADS1231_WOULD_BLOCK
  | ABORTED
  | OTHER_ERROR nat

text \<open>The members of \<open>class Bottle\<close> other than the servo object.\<close>

record bottle =
  number :: nat
  pin :: nat
  pos_down :: int
  pos_up :: int

text \<open>
  The constants of \<open>config.h\<close> used by the class. The \<open>config.h\<close> of the embedded
  revision is missing, so they are parameters. \<open>ABORTCHECK_DEFAULT\<close> is the default
  argument of \<open>enable_abortcheck\<close> in the (missing) declarations of \<open>turn_to\<close>
  and \<open>turn_up\<close>.
\<close>

record config =
  WEIGHT_EPSILON :: int
  FAST_TURN_UP_DELAY :: int
  TURN_DOWN_DELAY :: int
  TURN_UP_DELAY :: int
  BOTTLE_EMPTY_POS_OFFSET :: int
  POURING_TIMEOUT :: int
  UPGRIGHT_OFFSET :: int
  ABORTCHECK_DEFAULT :: bool

definition SERVO_MIN :: int where
  "SERVO_MIN = 1000"

definition SERVO_MAX :: int where
  "SERVO_MAX = 2000"

text \<open>
  Every effect of the class on its surroundings, in the order in which it happens.
  Calls that return something from the surroundings record what they returned.
\<close>

datatype event =
    ServoWrite int
  | Delay int
  | CheckAborted bool
  | GetNoblock errv_t int
  | GetStableGrams errv_t int
  | GetGrams errv_t int
  | WaitForCup errv_t
  | WaitForResume errv_t
  | DelayUntil int int bool errv_t
  | MsgPouring nat int
  | ErrorMsg errv_t "nat option"
  | PrintLcd string nat

text \<open>
  The surroundings of one bottle: the pulse width its servo holds, the log of effects,
  and, for every external function, the sequence of results its future calls will
  return (a call takes the head and leaves the rest).
\<close>

record world =
  servo_us :: int
  events :: "event list"
  abort_flag :: "nat \<Rightarrow> bool"
  noblock_in :: "nat \<Rightarrow> errv_t \<times> int"
  stable_in :: "nat \<Rightarrow> errv_t \<times> int"
  grams_in :: "nat \<Rightarrow> errv_t \<times> int"
  cup_in :: "nat \<Rightarrow> errv_t"
  resume_in :: "nat \<Rightarrow> errv_t"
  until_in :: "nat \<Rightarrow> errv_t"

definition emit :: "event \<Rightarrow> world \<Rightarrow> world" where
  "emit e w = w\<lparr>events := events w @ [e]\<rparr>"

section \<open>External collaborators\<close>

text \<open>
  Modelled from the spec: the Servo library is not part of the repository. The actuator
  exposes "read current position", which returns the position last set.
\<close>

definition readMicroseconds :: "world \<Rightarrow> int" where
  "readMicroseconds w = servo_us w"

text \<open>
  Modelled from the spec: the Servo library is not part of the repository. The actuator
  exposes "set position" in microsecond units; the command is logged.
\<close>

definition writeMicroseconds :: "int \<Rightarrow> world \<Rightarrow> world" where
  "writeMicroseconds i w = emit (ServoWrite i) (w\<lparr>servo_us := i\<rparr>)"

text \<open>
  Modelled from the spec: \<open>delay\<close> belongs to the Arduino core, not to the repository.
  It pauses for the given number of milliseconds and has no other effect.
\<close>

definition delay :: "int \<Rightarrow> world \<Rightarrow> world" where
  "delay ms w = emit (Delay ms) w"

text \<open>
  Modelled from the spec: \<open>check_aborted\<close> is missing. The abort signal is a single
  shared flag that is polled; a poll that finds it set reports \<open>ABORTED\<close>, any other
  poll reports success.
\<close>

definition check_aborted :: "world \<Rightarrow> errv_t \<times> world" where
  "check_aborted w =
     (let a = abort_flag w 0;
          w' = emit (CheckAborted a) (w\<lparr>abort_flag := (\<lambda>k. abort_flag w (Suc k))\<rparr>)
      in (if a then ABORTED else NO_ERROR, w'))"

text \<open>
  Modelled from the spec: the scale driver \<open>ads1231\<close> is missing. A non-blocking read
  yields a result code and, through its reference parameter, a weight in grams; the code
  \<open>ADS1231_WOULD_BLOCK\<close> means that no sample is available yet.
\<close>

definition ads1231_get_noblock :: "world \<Rightarrow> (errv_t \<times> int) \<times> world" where
  "ads1231_get_noblock w =
     (let (ret, weight) = noblock_in w 0;
          w' = emit (GetNoblock ret weight) (w\<lparr>noblock_in := (\<lambda>k. noblock_in w (Suc k))\<rparr>)
      in ((ret, weight), w'))"

section \<open>Positioning: \<open>Bottle::turn_to\<close>\<close>

text \<open>\<open>int step = (current_pos < pos) ? 1 : -1;\<close>\<close>

definition step_of :: "int \<Rightarrow> int \<Rightarrow> int" where
  "step_of current_pos pos = (if current_pos < pos then 1 else - 1)"

text \<open>
  The weight part of one loop iteration (the block under \<open>#ifndef WITHOUT_SCALE\<close>):
  it either ends the call with a result code and possibly a value stored through
  \<open>stable_weight\<close>, or lets the iteration go on with the two remembered samples
  \<open>weight_previous1\<close> and \<open>weight_previous2\<close>.
\<close>

datatype weight_step = Stop errv_t "int option" | Go int int

definition check_scale ::
  "config \<Rightarrow> bool \<Rightarrow> bool \<Rightarrow> int \<Rightarrow> int \<Rightarrow> world \<Rightarrow> weight_step \<times> world" where
  "check_scale c check_weight stable_weight weight_previous1 weight_previous2 w =
     (if check_weight \<or> stable_weight then
        (case ads1231_get_noblock w of ((ret, weight), w') \<Rightarrow>
           if ret = NO_ERROR then
             if check_weight \<and> weight < WEIGHT_EPSILON c then
               (Stop WHERE_THE_FUCK_IS_THE_CUP None, w')
             else if stable_weight then
               if weight_previous2 = weight_previous1 \<and> weight_previous1 = weight then
                 (Stop NO_ERROR (Some weight), w')
               else (Go weight weight_previous1, w')
             else (Go weight_previous1 weight_previous2, w')
           else if ret \<noteq> ADS1231_WOULD_BLOCK then (Stop ret None, w')
           else (Go weight_previous1 weight_previous2, w'))
      else (Go weight_previous1 weight_previous2, w))"

text \<open>
  \<open>turn_to\<close>, \<open>turn_up\<close> and the \<open>for\<close> loop of \<open>turn_to\<close>. The parameter
  \<open>stable_weight\<close> says whether the pointer is non-null; the second component of the
  result is the value stored through it, if any. The loop function is one test of the
  loop condition followed by one body: \<open>current_pos\<close> and \<open>pos\<close> fix \<open>step\<close>,
  \<open>i\<close> is the loop variable.
\<close>

function
  turn_to :: "config \<Rightarrow> bottle \<Rightarrow> int \<Rightarrow> int \<Rightarrow> bool \<Rightarrow> bool \<Rightarrow> bool \<Rightarrow> world
                \<Rightarrow> (errv_t \<times> int option) \<times> world"
  and turn_up :: "config \<Rightarrow> bottle \<Rightarrow> int \<Rightarrow> bool \<Rightarrow> world \<Rightarrow> errv_t \<times> world"
  and turn_to_loop :: "config \<Rightarrow> bottle \<Rightarrow> int \<Rightarrow> int \<Rightarrow> bool \<Rightarrow> bool \<Rightarrow> bool \<Rightarrow> int \<Rightarrow> int
                \<Rightarrow> int \<Rightarrow> int \<Rightarrow> world \<Rightarrow> (errv_t \<times> int option) \<times> world"
where
  "turn_to c b pos delay_ms check_weight stable_weight enable_abortcheck w =
     (if pos < SERVO_MIN \<or> pos > SERVO_MAX then ((SERVO_OUT_OF_RANGE, None), w)
      else
        let current_pos = readMicroseconds w in
        if pos = current_pos then ((NO_ERROR, None), w)
        else turn_to_loop c b pos delay_ms check_weight stable_weight enable_abortcheck
               current_pos (current_pos + step_of current_pos pos) (- 9999) (- 9999) w)"
| "turn_up c b delay_ms enable_abortcheck w =
     (case turn_to c b (pos_up b) delay_ms False False enable_abortcheck w of
        ((ret, _), w') \<Rightarrow> (ret, w'))"
| "turn_to_loop c b pos delay_ms check_weight stable_weight enable_abortcheck
       current_pos i weight_previous1 weight_previous2 w =
     (let step = step_of current_pos pos in
      if i * step \<le> pos * step then
        (case (if enable_abortcheck then check_aborted w else (NO_ERROR, w)) of
           (ret, w1) \<Rightarrow>
             if ret \<noteq> NO_ERROR then
               (case turn_up c b (FAST_TURN_UP_DELAY c) False w1 of
                  (_, w2) \<Rightarrow> ((ret, None), w2))
             else
               (case check_scale c check_weight stable_weight
                       weight_previous1 weight_previous2 w1 of
                  (Stop r v, w2) \<Rightarrow> ((r, v), w2)
                | (Go p1 p2, w2) \<Rightarrow>
                    turn_to_loop c b pos delay_ms check_weight stable_weight
                      enable_abortcheck current_pos (i + step) p1 p2
                      (writeMicroseconds i (delay delay_ms w2))))
      else ((if stable_weight then WEIGHT_NOT_STABLE else NO_ERROR, None), w))"
  by pat_completeness auto

termination
proof (relation "inv_image (less_than <*lex*> less_than)
     (\<lambda>x. case x of
        Inl (c, b, pos, delay_ms, cw, sw, ab, w) \<Rightarrow>
          ((if ab then 1 else 0), nat \<bar>pos - readMicroseconds w\<bar> + 1)
      | Inr (Inl (c, b, delay_ms, ab, w)) \<Rightarrow>
          ((if ab then 1 else 0), nat \<bar>pos_up b - readMicroseconds w\<bar> + 2)
      | Inr (Inr (c, b, pos, delay_ms, cw, sw, ab, cur, i, p1, p2, w)) \<Rightarrow>
          ((if ab then 1 else 0), nat (pos * step_of cur pos - i * step_of cur pos + 1)))",
    goal_cases)
  case 1
  show ?case
    by (rule wf_inv_image, rule wf_lex_prod, rule wf_less_than, rule wf_less_than)
next
  case 2
  then show ?case
    by (simp add: step_of_def readMicroseconds_def split: if_splits)
next
  case 3
  show ?case by simp
next
  case 4
  then show ?case
    by (simp add: check_aborted_def Let_def split: if_splits)
next
  case 5
  then show ?case
    by (simp add: step_of_def split: if_splits)
qed

declare turn_to.simps [simp del] turn_up.simps [simp del] turn_to_loop.simps [simp del]

text \<open>
  Modelled from the spec: the declarations of the embedded revision are missing, and with
  them the default arguments of \<open>turn_to\<close>. The weight check and the stabilization mode
  are optional and off unless requested (\<open>check_weight = false\<close>,
  \<open>stable_weight = NULL\<close>); the default of \<open>enable_abortcheck\<close> is the parameter
  \<open>ABORTCHECK_DEFAULT\<close>. This concerns \<open>turn_down\<close>, \<open>turn_to_pause_pos\<close> and the
  calls of \<open>turn_to\<close> in \<open>pour\<close>.
\<close>

definition turn_down :: "config \<Rightarrow> bottle \<Rightarrow> int \<Rightarrow> bool \<Rightarrow> world \<Rightarrow> errv_t \<times> world" where
  "turn_down c b delay_ms check_weight w =
     (case turn_to c b (pos_down b) delay_ms check_weight False (ABORTCHECK_DEFAULT c) w of
        ((ret, _), w') \<Rightarrow> (ret, w'))"

text \<open>Division of C++ on \<open>int\<close> rounds towards zero.\<close>

definition c_div2 :: "int \<Rightarrow> int" where
  "c_div2 x = (if 0 \<le> x then x div 2 else - ((- x) div 2))"

definition get_pause_pos :: "bottle \<Rightarrow> int" where
  "get_pause_pos b = c_div2 (pos_down b + pos_up b)"

definition turn_to_pause_pos :: "config \<Rightarrow> bottle \<Rightarrow> int \<Rightarrow> world \<Rightarrow> errv_t \<times> world" where
  "turn_to_pause_pos c b delay_ms w =
     (case turn_to c b (get_pause_pos b) delay_ms False False (ABORTCHECK_DEFAULT c) w of
        ((ret, _), w') \<Rightarrow> (ret, w'))"

section \<open>Pouring: \<open>Bottle::pour\<close>\<close>

text \<open>
  Modelled from the spec: the scale driver \<open>ads1231\<close> is missing. The blocking
  "sample until the value is stable" operation yields a result code and, through its
  reference parameter, a weight in grams.
\<close>

definition ads1231_get_stable_grams :: "world \<Rightarrow> (errv_t \<times> int) \<times> world" where
  "ads1231_get_stable_grams w =
     (let (ret, grams) = stable_in w 0;
          w' = emit (GetStableGrams ret grams) (w\<lparr>stable_in := (\<lambda>k. stable_in w (Suc k))\<rparr>)
      in ((ret, grams), w'))"

text \<open>
  Modelled from the spec: the scale driver \<open>ads1231\<close> is missing. The blocking read
  of a weight sample yields a result code and, through its reference parameter, a weight
  in grams.
\<close>

definition ads1231_get_grams :: "world \<Rightarrow> (errv_t \<times> int) \<times> world" where
  "ads1231_get_grams w =
     (let (ret, grams) = grams_in w 0;
          w' = emit (GetGrams ret grams) (w\<lparr>grams_in := (\<lambda>k. grams_in w (Suc k))\<rparr>)
      in ((ret, grams), w'))"

text \<open>
  Modelled from the spec: \<open>wait_for_cup\<close> is missing. It blocks, polling the
  presence of a cup and honouring abort, and yields a result code; it moves no servo.
\<close>

definition wait_for_cup :: "world \<Rightarrow> errv_t \<times> world" where
  "wait_for_cup w =
     (let ret = cup_in w 0
      in (ret, emit (WaitForCup ret) (w\<lparr>cup_in := (\<lambda>k. cup_in w (Suc k))\<rparr>)))"

text \<open>
  Modelled from the spec: \<open>wait_for_resume\<close> is missing. It blocks awaiting the
  resume command, honouring abort, and yields a result code; it moves no servo.
\<close>

definition wait_for_resume :: "world \<Rightarrow> errv_t \<times> world" where
  "wait_for_resume w =
     (let ret = resume_in w 0
      in (ret, emit (WaitForResume ret) (w\<lparr>resume_in := (\<lambda>k. resume_in w (Suc k))\<rparr>)))"

text \<open>
  Modelled from the spec: \<open>delay_until\<close> is missing. It blocks until the scale reads
  at least the given weight, or the timeout elapses, or the cup disappears, or the bottle
  runs dry, and yields a result code; it moves no servo.
\<close>

definition delay_until :: "int \<Rightarrow> int \<Rightarrow> bool \<Rightarrow> world \<Rightarrow> errv_t \<times> world" where
  "delay_until max_delay_ms max_weight pour_handling w =
     (let ret = until_in w 0
      in (ret, emit (DelayUntil max_delay_ms max_weight pour_handling ret)
                 (w\<lparr>until_in := (\<lambda>k. until_in w (Suc k))\<rparr>)))"

text \<open>
  Modelled from the spec: the display driver is missing. \<open>print_lcd\<close> writes a text on
  a line of the status display.
\<close>

definition print_lcd :: "string \<Rightarrow> nat \<Rightarrow> world \<Rightarrow> world" where
  "print_lcd s line w = emit (PrintLcd s line) w"

text \<open>
  \<open>MSG(String("POURING ") + String(number) + String(" ") + String(orig_weight))\<close> and
  \<open>ERROR(c_strerror(e) + ...)\<close>: the serial line is recorded by its fields.
\<close>

definition MSG_POURING :: "nat \<Rightarrow> int \<Rightarrow> world \<Rightarrow> world" where
  "MSG_POURING n orig_weight w = emit (MsgPouring n orig_weight) w"

definition ERROR_MSG :: "errv_t \<Rightarrow> nat option \<Rightarrow> world \<Rightarrow> world" where
  "ERROR_MSG e n w = emit (ErrorMsg e n) w"

text \<open>How an iteration of one of the two \<open>while (1)\<close> loops of \<open>pour\<close> leaves the loop.\<close>

datatype 'a loop_exit = Return errv_t | Break 'a

text \<open>
  The first part of an iteration of the first loop of \<open>pour\<close> (the build with a
  scale): the turn towards \<open>below_pause\<close> that samples the weight, and the blocking
  stable read if the weight did not settle on the way. It yields \<open>ret\<close> and the value
  of \<open>orig_weight\<close>, which keeps its old value when nothing is stored into it.
\<close>

definition measure_baseline ::
  "config \<Rightarrow> bottle \<Rightarrow> int \<Rightarrow> world \<Rightarrow> (errv_t \<times> int) \<times> world" where
  "measure_baseline c b orig_weight w =
     (let below_pause = c_div2 (pos_down b + get_pause_pos b) in
      case turn_to c b below_pause (TURN_DOWN_DELAY c) True True (ABORTCHECK_DEFAULT c) w of
        ((ret, stored), w1) \<Rightarrow>
          let orig_weight = (case stored of Some v \<Rightarrow> v | None \<Rightarrow> orig_weight) in
          if ret = WEIGHT_NOT_STABLE then ads1231_get_stable_grams w1
          else ((ret, orig_weight), w1))"

text \<open>
  The first loop of \<open>pour\<close>: it establishes \<open>orig_weight\<close>. The loops of \<open>pour\<close>
  need not end, so they run on fuel: one unit per iteration, and \<open>None\<close> when the fuel
  is used up before the loop is left.
\<close>

fun pour_baseline ::
  "nat \<Rightarrow> config \<Rightarrow> bottle \<Rightarrow> int \<Rightarrow> world \<Rightarrow> int loop_exit option \<times> world" where
  "pour_baseline 0 c b orig_weight w = (None, w)"
| "pour_baseline (Suc fuel) c b orig_weight w =
     (case measure_baseline c b orig_weight w of
        ((ret, orig_weight), w2) \<Rightarrow>
          if ret \<noteq> NO_ERROR \<and> ret \<noteq> WHERE_THE_FUCK_IS_THE_CUP then
            (Some (Return ret), w2)
          else if ret = WHERE_THE_FUCK_IS_THE_CUP \<or> orig_weight < WEIGHT_EPSILON c then
            (case wait_for_cup w2 of
               (r, w3) \<Rightarrow>
                 if r \<noteq> NO_ERROR then (Some (Return r), w3)
                 else pour_baseline fuel c b orig_weight w3)
          else (Some (Break orig_weight), w2))"

text \<open>
  The value a 16-bit \<open>int\<close> holds after an arithmetic result \<open>x\<close> has been stored in
  it: \<open>x\<close> itself when it lies in \<open>[-32768, 32767]\<close>, and \<open>x\<close> wrapped around
  into that range otherwise (signed overflow is undefined in C++; the target wraps).
\<close>

definition wrap_int16 :: "int \<Rightarrow> int" where
  "wrap_int16 x = (x + 32768) mod 65536 - 32768"

text \<open>
  The first part of an iteration of the second loop: status message, tilt down with
  the weight check, and the wait for the requested weight, where the weight waited for,
  \<open>orig_weight + requested_amount - UPGRIGHT_OFFSET\<close>, is a sum on \<open>int\<close>.
  It yields \<open>ret\<close>.
\<close>

definition pour_attempt :: "config \<Rightarrow> bottle \<Rightarrow> int \<Rightarrow> int \<Rightarrow> world \<Rightarrow> errv_t \<times> world" where
  "pour_attempt c b requested_amount orig_weight w =
     (case turn_down c b (TURN_DOWN_DELAY c) True (MSG_POURING (number b) orig_weight w) of
        (ret, w1) \<Rightarrow>
          if ret = NO_ERROR then
            delay_until (POURING_TIMEOUT c)
              (wrap_int16 (orig_weight + requested_amount - UPGRIGHT_OFFSET c)) True w1
          else (ret, w1))"

fun pour_loop ::
  "nat \<Rightarrow> config \<Rightarrow> bottle \<Rightarrow> int \<Rightarrow> int \<Rightarrow> world \<Rightarrow> unit loop_exit option \<times> world" where
  "pour_loop 0 c b requested_amount orig_weight w = (None, w)"
| "pour_loop (Suc fuel) c b requested_amount orig_weight w =
     (case pour_attempt c b requested_amount orig_weight w of
        (ret, w1) \<Rightarrow>
          if ret = NO_ERROR then (Some (Break ()), w1)
          else if ret = BOTTLE_EMPTY then
            (case turn_to c b (pos_up b + BOTTLE_EMPTY_POS_OFFSET c) (TURN_UP_DELAY c)
                    False False (ABORTCHECK_DEFAULT c)
                    (ERROR_MSG BOTTLE_EMPTY (Some (number b)) w1) of
               ((r, _), w2) \<Rightarrow>
                 if r \<noteq> NO_ERROR then (Some (Return r), w2)
                 else
                   (case wait_for_resume w2 of
                      (r, w3) \<Rightarrow>
                        if r \<noteq> NO_ERROR then (Some (Return r), w3)
                        else pour_loop fuel c b requested_amount orig_weight
                               (print_lcd [] 2 w3)))
          else if ret = WHERE_THE_FUCK_IS_THE_CUP then
            (case turn_to_pause_pos c b (FAST_TURN_UP_DELAY c)
                    (ERROR_MSG WHERE_THE_FUCK_IS_THE_CUP None w1) of
               (r, w2) \<Rightarrow>
                 if r \<noteq> NO_ERROR then (Some (Return r), w2)
                 else
                   (case wait_for_cup w2 of
                      (r, w3) \<Rightarrow>
                        if r \<noteq> NO_ERROR then (Some (Return r), w3)
                        else pour_loop fuel c b requested_amount orig_weight
                               (print_lcd [] 2 w3)))
          else (Some (Return ret), w1))"

text \<open>
  \<open>pour\<close>: the result is \<open>None\<close> when the fuel does not suffice, and otherwise the
  returned code together with the value assigned to \<open>measured_amount\<close> on success,
  where \<open>measured_amount -= orig_weight\<close> is a subtraction on \<open>int\<close>.
\<close>

definition pour ::
  "nat \<Rightarrow> config \<Rightarrow> bottle \<Rightarrow> int \<Rightarrow> world \<Rightarrow> (errv_t \<times> int option) option \<times> world" where
  "pour fuel c b requested_amount w =
     (case pour_baseline fuel c b 0 w of
        (None, w1) \<Rightarrow> (None, w1)
      | (Some (Return ret), w1) \<Rightarrow> (Some (ret, None), w1)
      | (Some (Break orig_weight), w1) \<Rightarrow>
          (case pour_loop fuel c b requested_amount orig_weight w1 of
             (None, w2) \<Rightarrow> (None, w2)
           | (Some (Return ret), w2) \<Rightarrow> (Some (ret, None), w2)
           | (Some (Break _), w2) \<Rightarrow>
               (case turn_to_pause_pos c b (TURN_UP_DELAY c) w2 of
                  (r, w3) \<Rightarrow>
                    if r \<noteq> NO_ERROR then (Some (r, None), w3)
                    else
                      (case ads1231_get_grams w3 of
                         ((r, measured_amount), w4) \<Rightarrow>
                           if r \<noteq> NO_ERROR then (Some (r, None), w4)
                           else (Some (NO_ERROR,
                                  Some (wrap_int16 (measured_amount - orig_weight))), w4)))))"

section \<open>Observations on the log\<close>

text \<open>The effects a call added to the log.\<close>

definition new_events :: "world \<Rightarrow> world \<Rightarrow> event list" where
  "new_events w w' = drop (length (events w)) (events w')"

text \<open>The valid weight samples among the non-blocking reads of a log, in order.\<close>

fun samples :: "event list \<Rightarrow> int list" where
  "samples [] = []"
| "samples (GetNoblock ret weight # es) =
     (if ret = NO_ERROR then weight # samples es else samples es)"
| "samples (_ # es) = samples es"

text \<open>The positions commanded to the servo, in order.\<close>

fun writes :: "event list \<Rightarrow> int list" where
  "writes [] = []"
| "writes (ServoWrite p # es) = p # writes es"
| "writes (_ # es) = writes es"

text \<open>The baseline weights announced by the \<open>POURING\<close> status messages of a log.\<close>

fun pouring_weights :: "event list \<Rightarrow> int list" where
  "pouring_weights [] = []"
| "pouring_weights (MsgPouring n weight # es) = weight # pouring_weights es"
| "pouring_weights (_ # es) = pouring_weights es"

text \<open>A sequence of samples ends with three equal values.\<close>

definition ends_stable :: "int list \<Rightarrow> bool" where
  "ends_stable ss = (case rev ss of a # b # c # _ \<Rightarrow> a = b \<and> b = c | _ \<Rightarrow> False)"

text \<open>
  Stepping without any check: before each of the positions \<open>ps\<close> is commanded, the
  delay \<open>d\<close> is taken.
\<close>

definition walk_events :: "int \<Rightarrow> int list \<Rightarrow> event list" where
  "walk_events d ps = concat (map (\<lambda>p. [Delay d, ServoWrite p]) ps)"

definition walk :: "int \<Rightarrow> int list \<Rightarrow> world \<Rightarrow> world" where
  "walk d ps w = w\<lparr>servo_us := last (servo_us w # ps), events := events w @ walk_events d ps\<rparr>"

text \<open>The positions between \<open>cur\<close> (excluded) and \<open>pos\<close> (included), from \<open>cur\<close> on.\<close>

definition steps_to :: "int \<Rightarrow> int \<Rightarrow> int list" where
  "steps_to cur pos = (if cur < pos then [cur + 1..pos] else rev [pos..cur - 1])"

text \<open>The values the loop variable of \<open>turn_to\<close> still takes when it stands at \<open>i\<close>.\<close>

definition loop_steps :: "int \<Rightarrow> int \<Rightarrow> int \<Rightarrow> int list" where
  "loop_steps cur pos i = (if cur < pos then [i..pos] else rev [pos..i])"

definition in_servo_range :: "int \<Rightarrow> bool" where
  "in_servo_range p = (SERVO_MIN \<le> p \<and> p \<le> SERVO_MAX)"


text \<open>The effects \<open>turn_to\<close> can have: servo commands, delays, abort polls, non-blocking reads.\<close>

fun turn_event :: "event \<Rightarrow> bool" where
  "turn_event (ServoWrite _) = True"
| "turn_event (Delay _) = True"
| "turn_event (CheckAborted _) = True"
| "turn_event (GetNoblock _ _) = True"
| "turn_event _ = False"

text \<open>\<open>p\<close> lies between \<open>a\<close> and \<open>b\<close>, whichever of the two is smaller.\<close>

definition between :: "int \<Rightarrow> int \<Rightarrow> int \<Rightarrow> bool" where
  "between a b p = (min a b \<le> p \<and> p \<le> max a b)"

text \<open>
  What \<open>weight_previous1\<close> and \<open>weight_previous2\<close> hold after the samples \<open>hs\<close>
  have been remembered: the last and the last but one, and the initial value where there
  is none yet.
\<close>

definition remembered :: "int list \<Rightarrow> int \<times> int" where
  "remembered hs =
     (case rev hs of [] \<Rightarrow> (- 9999, - 9999) | [a] \<Rightarrow> (a, - 9999) | a # b # _ \<Rightarrow> (a, b))"

text \<open>
  The stabilization verdict \<open>res\<close> of a call fits the samples \<open>ss\<close> it has read after
  the remembered samples \<open>hs\<close>: provided the first sample is not mistaken for the initial
  value, three equal samples in a row come up exactly at the last sample of a call that
  stores a stable weight, and the stored weight is that sample.
\<close>

definition stable_spec :: "config \<Rightarrow> bool \<Rightarrow> int list \<Rightarrow> int list \<Rightarrow> errv_t \<times> int option \<Rightarrow> bool" where
  "stable_spec c cw hs ss res \<longleftrightarrow>
     ((cw \<and> - 9999 < WEIGHT_EPSILON c) \<or> - 9999 \<notin> set (take 1 (hs @ ss))) \<longrightarrow>
       (\<forall>n. 1 \<le> n \<and> n \<le> length ss \<longrightarrow>
            (ends_stable (hs @ take n ss) \<longleftrightarrow> (n = length ss \<and> snd res \<noteq> None)))
       \<and> (snd res \<noteq> None \<longrightarrow> fst res = NO_ERROR \<and> ss \<noteq> [] \<and> snd res = Some (last ss))"

text \<open>
  The log of \<open>w'\<close> continues the log of \<open>w\<close>, and the \<open>POURING\<close> messages added
  announce the weights \<open>xs\<close>.
\<close>

definition announces :: "int list \<Rightarrow> world \<Rightarrow> world \<Rightarrow> bool" where
  "announces xs w w' \<longleftrightarrow> (\<exists>evs. events w' = events w @ evs \<and> pouring_weights evs = xs)"

section \<open>Example surroundings\<close>

definition stream_of :: "'a list \<Rightarrow> 'a \<Rightarrow> nat \<Rightarrow> 'a" where
  "stream_of xs d k = (if k < length xs then xs ! k else d)"

definition demo_config :: config where
  "demo_config = \<lparr>WEIGHT_EPSILON = 10, FAST_TURN_UP_DELAY = 2, TURN_DOWN_DELAY = 5,
     TURN_UP_DELAY = 4, BOTTLE_EMPTY_POS_OFFSET = 1, POURING_TIMEOUT = 30000,
     UPGRIGHT_OFFSET = 5, ABORTCHECK_DEFAULT = True\<rparr>"

definition demo_bottle :: bottle where
  "demo_bottle = \<lparr>number = 3, pin = 13, pos_down = 1504, pos_up = 1498\<rparr>"

definition make_world ::
  "int \<Rightarrow> bool list \<Rightarrow> (errv_t \<times> int) list \<Rightarrow> (errv_t \<times> int) list \<Rightarrow> (errv_t \<times> int) list
     \<Rightarrow> errv_t list \<Rightarrow> errv_t list \<Rightarrow> errv_t list \<Rightarrow> world" where
  "make_world p aborts noblocks stables grams cups resumes untils =
     \<lparr>servo_us = p, events = [],
      abort_flag = stream_of aborts False,
      noblock_in = stream_of noblocks (ADS1231_WOULD_BLOCK, 0),
      stable_in = stream_of stables (NO_ERROR, 0),
      grams_in = stream_of grams (NO_ERROR, 0),
      cup_in = stream_of cups NO_ERROR,
      resume_in = stream_of resumes NO_ERROR,
      until_in = stream_of untils NO_ERROR\<rparr>"

definition demo_world :: "int \<Rightarrow> bool list \<Rightarrow> (errv_t \<times> int) list \<Rightarrow> world" where
  "demo_world p aborts noblocks = make_world p aborts noblocks [] [] [] [] []"


definition empty_world :: world where
  "empty_world = make_world 1504 [] [] [] [] [] [NO_ERROR] [BOTTLE_EMPTY, NO_ERROR]"

definition cupless_world :: world where
  "cupless_world = make_world 1501 [] [] [(NO_ERROR, 3), (NO_ERROR, 50)] [(NO_ERROR, 79)]
     [NO_ERROR] [] [NO_ERROR]"

lemmas demo_defs =
  demo_config_def demo_bottle_def make_world_def demo_world_def stream_of_def

lemmas run_defs =
  turn_to.simps turn_up.simps turn_to_loop.simps turn_down_def turn_to_pause_pos_def
  SERVO_MIN_def SERVO_MAX_def readMicroseconds_def writeMicroseconds_def delay_def
  emit_def check_aborted_def ads1231_get_noblock_def check_scale_def step_of_def
  get_pause_pos_def c_div2_def Let_def

lemmas pour_defs =
  pour_def pour_attempt_def measure_baseline_def ads1231_get_stable_grams_def
  ads1231_get_grams_def wait_for_cup_def wait_for_resume_def delay_until_def print_lcd_def
  MSG_POURING_def ERROR_MSG_def wrap_int16_def

section \<open>Basic facts about the stepping loop\<close>


lemma turn_to_loop_induct [case_names iter]:
  assumes "\<And>i p1 p2 w.
     (\<And>p1' p2' w'. i * step_of cur pos \<le> pos * step_of cur pos
         \<Longrightarrow> R (i + step_of cur pos) p1' p2' w') \<Longrightarrow> R i p1 p2 w"
  shows "R i p1 p2 w"
proof (induction "nat (pos * step_of cur pos - i * step_of cur pos + 1)"
        arbitrary: i p1 p2 w rule: less_induct)
  case less
  show ?case
  proof (rule assms)
    fix p1' p2' w'
    assume "i * step_of cur pos \<le> pos * step_of cur pos"
    then have "nat (pos * step_of cur pos - (i + step_of cur pos) * step_of cur pos + 1)
             < nat (pos * step_of cur pos - i * step_of cur pos + 1)"
      by (simp add: step_of_def algebra_simps split: if_splits)
    then show "R (i + step_of cur pos) p1' p2' w'"
      by (rule less)
  qed
qed

lemma walk_Nil [simp]: "walk d [] w = w"
  by (simp add: walk_def walk_events_def)

lemma walk_Cons: "walk d (p # ps) w = walk d ps (writeMicroseconds p (delay d w))"
  by (simp add: walk_def walk_events_def writeMicroseconds_def delay_def emit_def)

lemma events_walk [simp]: "events (walk d ps w) = events w @ walk_events d ps"
  by (simp add: walk_def)

lemma servo_walk [simp]: "servo_us (walk d ps w) = last (servo_us w # ps)"
  by (simp add: walk_def)

lemma check_scale_off [simp]: "check_scale c False False p1 p2 w = (Go p1 p2, w)"
  by (simp add: check_scale_def)

lemma loop_steps_done:
  "\<not> i * step_of cur pos \<le> pos * step_of cur pos \<Longrightarrow> loop_steps cur pos i = []"
  by (simp add: loop_steps_def step_of_def split: if_splits)

lemma loop_steps_more:
  "i * step_of cur pos \<le> pos * step_of cur pos \<Longrightarrow>
   loop_steps cur pos i = i # loop_steps cur pos (i + step_of cur pos)"
  by (auto simp add: loop_steps_def step_of_def upto_rec1 [of i pos] upto_rec2 [of pos i])

lemma plain_loop:
  "turn_to_loop c b pos d False False False cur i p1 p2 w
     = ((NO_ERROR, None), walk d (loop_steps cur pos i) w)"
proof (induction i p1 p2 w rule: turn_to_loop_induct [where cur = cur and pos = pos])
  case (iter i p1 p2 w)
  show ?case
  proof (cases "i * step_of cur pos \<le> pos * step_of cur pos")
    case True
    then show ?thesis
      by (subst turn_to_loop.simps) (simp add: iter loop_steps_more walk_Cons)
  next
    case False
    then show ?thesis
      by (subst turn_to_loop.simps) (simp add: loop_steps_done)
  qed
qed

lemma plain_turn_to:
  "turn_to c b pos d False False False w =
     (if pos < SERVO_MIN \<or> SERVO_MAX < pos then ((SERVO_OUT_OF_RANGE, None), w)
      else ((NO_ERROR, None), walk d (steps_to (servo_us w) pos) w))"
  by (auto simp add: turn_to.simps plain_loop readMicroseconds_def loop_steps_def
        steps_to_def step_of_def Let_def)

lemma plain_turn_up:
  "turn_up c b d False w =
     (if pos_up b < SERVO_MIN \<or> SERVO_MAX < pos_up b then (SERVO_OUT_OF_RANGE, w)
      else (NO_ERROR, walk d (steps_to (servo_us w) (pos_up b)) w))"
  by (simp add: turn_up.simps plain_turn_to)

lemma turn_to_loop_cases [case_names finished aborted stopped continue]:
  obtains
    (finished) "\<not> i * step_of cur pos \<le> pos * step_of cur pos"
      "turn_to_loop c b pos d cw sw ab cur i p1 p2 w
         = ((if sw then WEIGHT_NOT_STABLE else NO_ERROR, None), w)"
  | (aborted) "i * step_of cur pos \<le> pos * step_of cur pos" "ab" "abort_flag w 0"
      "turn_to_loop c b pos d cw sw ab cur i p1 p2 w
         = ((ABORTED, None), snd (turn_up c b (FAST_TURN_UP_DELAY c) False (snd (check_aborted w))))"
  | (stopped) r v w2 where "i * step_of cur pos \<le> pos * step_of cur pos"
      "ab \<longrightarrow> \<not> abort_flag w 0"
      "check_scale c cw sw p1 p2 (if ab then snd (check_aborted w) else w) = (Stop r v, w2)"
      "turn_to_loop c b pos d cw sw ab cur i p1 p2 w = ((r, v), w2)"
  | (continue) p1' p2' w2 where "i * step_of cur pos \<le> pos * step_of cur pos"
      "ab \<longrightarrow> \<not> abort_flag w 0"
      "check_scale c cw sw p1 p2 (if ab then snd (check_aborted w) else w) = (Go p1' p2', w2)"
      "turn_to_loop c b pos d cw sw ab cur i p1 p2 w
         = turn_to_loop c b pos d cw sw ab cur (i + step_of cur pos) p1' p2'
             (writeMicroseconds i (delay d w2))"
proof (cases "i * step_of cur pos \<le> pos * step_of cur pos")
  case False
  then show ?thesis
    by (intro finished) (simp_all add: turn_to_loop.simps [of c b pos d cw sw _ cur i])
next
  case le: True
  show ?thesis
  proof (cases "ab \<and> abort_flag w 0")
    case True
    with le show ?thesis
      by (intro aborted)
         (simp_all add: turn_to_loop.simps [of c b pos d cw sw _ cur i] check_aborted_def Let_def
            split: prod.splits)
  next
    case na: False
    obtain x w2 where cs: "check_scale c cw sw p1 p2 (if ab then snd (check_aborted w) else w) = (x, w2)"
      by (cases "check_scale c cw sw p1 p2 (if ab then snd (check_aborted w) else w)")
    show ?thesis
    proof (cases x)
      case (Stop r v)
      with le na cs show ?thesis
        by (intro stopped [of r v w2])
           (auto simp add: turn_to_loop.simps [of c b pos d cw sw _ cur i] check_aborted_def Let_def)
    next
      case (Go p1' p2')
      with le na cs show ?thesis
        by (intro continue [of p1' p2' w2])
           (auto simp add: turn_to_loop.simps [of c b pos d cw sw _ cur i] check_aborted_def Let_def)
    qed
  qed
qed

lemma walk_events_turn: "list_all turn_event (walk_events d ps)"
  by (induction ps) (simp_all add: walk_events_def)

lemma check_aborted_world:
  "events (snd (check_aborted w)) = events w @ [CheckAborted (abort_flag w 0)]"
  "servo_us (snd (check_aborted w)) = servo_us w"
  "noblock_in (snd (check_aborted w)) = noblock_in w"
  by (simp_all add: check_aborted_def emit_def Let_def)

lemma check_scale_world:
  assumes "check_scale c cw sw p1 p2 w = (x, w2)"
  shows "servo_us w2 = servo_us w"
    and "abort_flag w2 = abort_flag w"
    and "\<exists>evs. events w2 = events w @ evs \<and> list_all turn_event evs \<and> writes evs = []
            \<and> CheckAborted True \<notin> set evs"
  using assms
  by (auto simp add: check_scale_def ads1231_get_noblock_def emit_def Let_def
        split: if_splits prod.splits)

lemma step_world:
  "servo_us (writeMicroseconds i (delay d w)) = i"
  "events (writeMicroseconds i (delay d w)) = events w @ [Delay d, ServoWrite i]"
  "abort_flag (writeMicroseconds i (delay d w)) = abort_flag w"
  "noblock_in (writeMicroseconds i (delay d w)) = noblock_in w"
  by (simp_all add: writeMicroseconds_def delay_def emit_def)

lemma turn_to_loop_events:
  "\<exists>evs. events (snd (turn_to_loop c b pos d cw sw ab cur i p1 p2 w)) = events w @ evs
      \<and> list_all turn_event evs"
proof (induction i p1 p2 w rule: turn_to_loop_induct [where cur = cur and pos = pos])
  case (iter i p1 p2 w)
  show ?case
  proof (cases rule: turn_to_loop_cases [of i cur pos c b d cw sw ab p1 p2 w])
    case finished
    then show ?thesis by simp
  next
    case aborted
    then show ?thesis
      by (simp add: plain_turn_up check_aborted_world walk_events_turn)
  next
    case (stopped r v w2)
    from check_scale_world(3) [OF stopped(3)] stopped(4) show ?thesis
      by (auto simp add: check_aborted_world)
  next
    case (continue p1' p2' w2)
    from check_scale_world(3) [OF continue(3)]
    obtain evs where e: "events w2 = events (if ab then snd (check_aborted w) else w) @ evs"
        "list_all turn_event evs"
      by blast
    from iter [OF continue(1), of p1' p2' "writeMicroseconds i (delay d w2)"]
    obtain evs' where e': "events (snd (turn_to_loop c b pos d cw sw ab cur (i + step_of cur pos) p1' p2'
                (writeMicroseconds i (delay d w2))))
         = events (writeMicroseconds i (delay d w2)) @ evs'" "list_all turn_event evs'"
      by blast
    show ?thesis
      using e e' continue(4)
      by (auto simp add: step_world check_aborted_world)
  qed
qed

lemma new_events_append: "events w' = events w @ evs \<Longrightarrow> new_events w w' = evs"
  by (simp add: new_events_def)

lemma new_events_trans:
  assumes "events w1 = events w @ e1" and "\<exists>e2. events w2 = events w1 @ e2"
  shows "new_events w w2 = e1 @ new_events w1 w2"
  using assms by (auto simp add: new_events_def)

lemma new_events_refl [simp]: "new_events w w = []"
  by (simp add: new_events_def)

lemma turn_to_loop_extends:
  "\<exists>evs. events (snd (turn_to_loop c b pos d cw sw ab cur i p1 p2 w)) = events w @ evs"
  using turn_to_loop_events [of c b pos d cw sw ab cur i p1 p2 w] by blast

lemma turn_to_loop_new_events:
  assumes "i * step_of cur pos \<le> pos * step_of cur pos"
    and "ab \<longrightarrow> \<not> abort_flag w 0"
    and "check_scale c cw sw p1 p2 (if ab then snd (check_aborted w) else w) = (x, w2)"
  shows "new_events w (snd (turn_to_loop c b pos d cw sw ab cur (i + step_of cur pos) p1' p2'
             (writeMicroseconds i (delay d w2))))
       = new_events w w2 @ [Delay d, ServoWrite i]
           @ new_events (writeMicroseconds i (delay d w2))
               (snd (turn_to_loop c b pos d cw sw ab cur (i + step_of cur pos) p1' p2'
                  (writeMicroseconds i (delay d w2))))"
proof -
  from check_scale_world(3) [OF assms(3)]
  obtain evs where e: "events w2 = events (if ab then snd (check_aborted w) else w) @ evs"
    by blast
  then obtain evs0 where e0: "events w2 = events w @ evs0"
    by (cases ab) (auto simp add: check_aborted_world)
  have "events (writeMicroseconds i (delay d w2)) = events w @ (evs0 @ [Delay d, ServoWrite i])"
    by (simp add: step_world e0)
  from new_events_trans [OF this turn_to_loop_extends]
  show ?thesis
    by (simp add: new_events_append [OF e0])
qed

lemma check_scale_new_events:
  assumes "ab \<longrightarrow> \<not> abort_flag w 0"
    and "check_scale c cw sw p1 p2 (if ab then snd (check_aborted w) else w) = (x, w2)"
  shows "writes (new_events w w2) = []" and "CheckAborted True \<notin> set (new_events w w2)"
    and "servo_us w2 = servo_us w"
proof -
  from check_scale_world [OF assms(2)]
  obtain evs where e: "events w2 = events (if ab then snd (check_aborted w) else w) @ evs"
      "writes evs = []" "CheckAborted True \<notin> set evs"
      and s: "servo_us w2 = servo_us (if ab then snd (check_aborted w) else w)"
    by blast
  show "servo_us w2 = servo_us w"
    using s by (simp add: check_aborted_world)
  show "writes (new_events w w2) = []"
  proof (cases ab)
    case True
    with e have "events w2 = events w @ (CheckAborted (abort_flag w 0) # evs)"
      by (simp add: check_aborted_world)
    from new_events_append [OF this] e show ?thesis by simp
  next
    case False
    with e have "events w2 = events w @ evs" by simp
    from new_events_append [OF this] e show ?thesis by simp
  qed
  show "CheckAborted True \<notin> set (new_events w w2)"
  proof (cases ab)
    case True
    with e have "events w2 = events w @ (CheckAborted (abort_flag w 0) # evs)"
      by (simp add: check_aborted_world)
    from new_events_append [OF this] e assms(1) True show ?thesis by simp
  next
    case False
    with e have "events w2 = events w @ evs" by simp
    from new_events_append [OF this] e show ?thesis by simp
  qed
qed

lemma aborted_new_events:
  "new_events w (snd (turn_up c b d False (snd (check_aborted w))))
     = CheckAborted (abort_flag w 0)
         # (if in_servo_range (pos_up b) then walk_events d (steps_to (servo_us w) (pos_up b))
            else [])"
  by (rule new_events_append)
     (auto simp add: plain_turn_up check_aborted_world in_servo_range_def)

lemma turn_to_loop_reach:
  assumes "servo_us w = i - step_of cur pos"
    and "i * step_of cur pos \<le> pos * step_of cur pos + 1"
  shows "(servo_us (snd (turn_to_loop c b pos d cw sw ab cur i p1 p2 w)) = pos
            \<and> CheckAborted True \<notin> set (new_events w (snd (turn_to_loop c b pos d cw sw ab cur i p1 p2 w)))
          \<longrightarrow> fst (turn_to_loop c b pos d cw sw ab cur i p1 p2 w)
                = (if sw then WEIGHT_NOT_STABLE else NO_ERROR, None))
       \<and> (fst (turn_to_loop c b pos d cw sw ab cur i p1 p2 w) = (NO_ERROR, None)
          \<longrightarrow> servo_us (snd (turn_to_loop c b pos d cw sw ab cur i p1 p2 w)) = pos)"
  using assms
proof (induction i p1 p2 w rule: turn_to_loop_induct [where cur = cur and pos = pos])
  case (iter i p1 p2 w)
  show ?case
  proof (cases rule: turn_to_loop_cases [of i cur pos c b d cw sw ab p1 p2 w])
    case finished
    with iter(2,3) have "servo_us w = pos"
      by (simp add: step_of_def split: if_splits)
    with finished show ?thesis by simp
  next
    case aborted
    then show ?thesis
      by (simp add: aborted_new_events)
  next
    case (stopped r v w2)
    from stopped(1) iter(2) have ne: "servo_us w \<noteq> pos"
      by (auto simp add: step_of_def split: if_splits)
    have "(r, v) \<noteq> (NO_ERROR, None)"
      using stopped(3)
      by (auto simp add: check_scale_def ads1231_get_noblock_def Let_def
            split: if_splits prod.splits)
    with ne stopped(4) check_scale_new_events(3) [OF stopped(2,3)] show ?thesis
      by simp
  next
    case (continue p1' p2' w2)
    let ?w = "writeMicroseconds i (delay d w2)"
    have "servo_us ?w = (i + step_of cur pos) - step_of cur pos"
      by (simp add: step_world)
    moreover from continue(1)
    have "(i + step_of cur pos) * step_of cur pos \<le> pos * step_of cur pos + 1"
      by (simp add: step_of_def algebra_simps split: if_splits)
    ultimately have IH: "(servo_us (snd (turn_to_loop c b pos d cw sw ab cur (i + step_of cur pos) p1' p2' ?w)) = pos
            \<and> CheckAborted True \<notin> set (new_events ?w (snd (turn_to_loop c b pos d cw sw ab cur (i + step_of cur pos) p1' p2' ?w)))
          \<longrightarrow> fst (turn_to_loop c b pos d cw sw ab cur (i + step_of cur pos) p1' p2' ?w)
                = (if sw then WEIGHT_NOT_STABLE else NO_ERROR, None))
       \<and> (fst (turn_to_loop c b pos d cw sw ab cur (i + step_of cur pos) p1' p2' ?w) = (NO_ERROR, None)
          \<longrightarrow> servo_us (snd (turn_to_loop c b pos d cw sw ab cur (i + step_of cur pos) p1' p2' ?w)) = pos)"
      by (rule iter(1) [OF continue(1)])
    show ?thesis
      using IH
      by (simp add: continue(4) turn_to_loop_new_events [OF continue(1,2,3)])
  qed
qed

lemma writes_append [simp]: "writes (xs @ ys) = writes xs @ writes ys"
  by (induction xs rule: writes.induct) simp_all

lemma samples_append [simp]: "samples (xs @ ys) = samples xs @ samples ys"
  by (induction xs rule: samples.induct) simp_all

lemma writes_walk_events [simp]: "writes (walk_events d ps) = ps"
  by (induction ps) (simp_all add: walk_events_def)

lemma samples_walk_events [simp]: "samples (walk_events d ps) = []"
  by (induction ps) (simp_all add: walk_events_def)

lemma walk_events_no_abort [simp]: "CheckAborted a \<notin> set (walk_events d ps)"
  by (induction ps) (simp_all add: walk_events_def)

lemma steps_to_between: "p \<in> set (steps_to a b) \<Longrightarrow> between a b p"
  by (auto simp add: steps_to_def between_def split: if_splits)

lemma between_in_range:
  "in_servo_range a \<Longrightarrow> in_servo_range b \<Longrightarrow> between a b p \<Longrightarrow> in_servo_range p"
  by (auto simp add: in_servo_range_def between_def)

lemma turn_to_loop_range:
  assumes "in_servo_range cur" and "in_servo_range pos" and "in_servo_range (servo_us w)"
    and "cur * step_of cur pos < i * step_of cur pos"
  shows "list_all in_servo_range
           (writes (new_events w (snd (turn_to_loop c b pos d cw sw ab cur i p1 p2 w))))
       \<and> (CheckAborted True \<notin> set (new_events w (snd (turn_to_loop c b pos d cw sw ab cur i p1 p2 w)))
          \<longrightarrow> list_all (between cur pos)
                (writes (new_events w (snd (turn_to_loop c b pos d cw sw ab cur i p1 p2 w)))))"
  using assms(3,4)
proof (induction i p1 p2 w rule: turn_to_loop_induct [where cur = cur and pos = pos])
  case (iter i p1 p2 w)
  show ?case
  proof (cases rule: turn_to_loop_cases [of i cur pos c b d cw sw ab p1 p2 w])
    case finished
    then show ?thesis by simp
  next
    case aborted
    have "list_all in_servo_range (steps_to (servo_us w) (pos_up b))" if "in_servo_range (pos_up b)"
      using that iter(2) by (auto simp add: list_all_iff dest: steps_to_between between_in_range)
    with aborted show ?thesis
      by (simp add: aborted_new_events)
  next
    case (stopped r v w2)
    with check_scale_new_events [OF stopped(2,3)] show ?thesis
      by simp
  next
    case (continue p1' p2' w2)
    let ?w = "writeMicroseconds i (delay d w2)"
    from continue(1) iter(3) have b: "between cur pos i"
      by (auto simp add: between_def step_of_def split: if_splits)
    with assms(1,2) have r: "in_servo_range i"
      by (rule between_in_range)
    then have "in_servo_range (servo_us ?w)"
      by (simp add: step_world)
    moreover from iter(3)
    have "cur * step_of cur pos < (i + step_of cur pos) * step_of cur pos"
      by (simp add: step_of_def algebra_simps split: if_splits)
    ultimately have IH: "list_all in_servo_range
           (writes (new_events ?w (snd (turn_to_loop c b pos d cw sw ab cur (i + step_of cur pos) p1' p2' ?w))))
       \<and> (CheckAborted True \<notin> set (new_events ?w (snd (turn_to_loop c b pos d cw sw ab cur (i + step_of cur pos) p1' p2' ?w)))
          \<longrightarrow> list_all (between cur pos)
                (writes (new_events ?w (snd (turn_to_loop c b pos d cw sw ab cur (i + step_of cur pos) p1' p2' ?w)))))"
      by (rule iter(1) [OF continue(1)])
    show ?thesis
      using IH b r check_scale_new_events(1,2) [OF continue(2,3)]
      by (simp add: continue(4) turn_to_loop_new_events [OF continue(1,2,3)])
  qed
qed

lemma turn_to_extends:
  "\<exists>evs. events (snd (turn_to c b pos d cw sw ab w)) = events w @ evs \<and> list_all turn_event evs"
  using turn_to_loop_events [of c b pos d cw sw ab]
  by (simp add: turn_to.simps Let_def)

lemma turn_to_commands:
  assumes "in_servo_range (servo_us w)"
  shows "list_all in_servo_range (writes (new_events w (snd (turn_to c b pos d cw sw ab w))))"
    and "CheckAborted True \<notin> set (new_events w (snd (turn_to c b pos d cw sw ab w)))
          \<Longrightarrow> list_all (between (servo_us w) pos)
                (writes (new_events w (snd (turn_to c b pos d cw sw ab w))))"
proof -
  have *: "list_all in_servo_range (writes (new_events w (snd (turn_to c b pos d cw sw ab w))))
    \<and> (CheckAborted True \<notin> set (new_events w (snd (turn_to c b pos d cw sw ab w)))
          \<longrightarrow> list_all (between (servo_us w) pos)
                (writes (new_events w (snd (turn_to c b pos d cw sw ab w)))))"
  proof (cases "in_servo_range pos \<and> pos \<noteq> servo_us w")
    case True
    then have "servo_us w * step_of (servo_us w) pos
                < (servo_us w + step_of (servo_us w) pos) * step_of (servo_us w) pos"
      by (simp add: step_of_def algebra_simps)
    moreover from True have "in_servo_range pos" by simp
    ultimately show ?thesis
      using turn_to_loop_range [where cur = "servo_us w" and pos = pos and w = w
          and i = "servo_us w + step_of (servo_us w) pos" and c = c and b = b and d = d
          and cw = cw and sw = sw and ab = ab and ?p1.0 = "- 9999" and ?p2.0 = "- 9999"]
        assms True
      by (simp add: turn_to.simps Let_def readMicroseconds_def in_servo_range_def)
  next
    case False
    then show ?thesis
      by (auto simp add: turn_to.simps Let_def readMicroseconds_def in_servo_range_def)
  qed
  from * show "list_all in_servo_range (writes (new_events w (snd (turn_to c b pos d cw sw ab w))))"
    by simp
  from * show "CheckAborted True \<notin> set (new_events w (snd (turn_to c b pos d cw sw ab w)))
          \<Longrightarrow> list_all (between (servo_us w) pos)
                (writes (new_events w (snd (turn_to c b pos d cw sw ab w))))"
    by simp
qed

lemma turn_to_reach:
  assumes "in_servo_range pos"
  shows "fst (turn_to c b pos d cw sw ab w) = (NO_ERROR, None)
          \<Longrightarrow> servo_us (snd (turn_to c b pos d cw sw ab w)) = pos"
    and "pos \<noteq> servo_us w \<Longrightarrow> servo_us (snd (turn_to c b pos d cw sw ab w)) = pos
          \<Longrightarrow> CheckAborted True \<notin> set (new_events w (snd (turn_to c b pos d cw sw ab w)))
          \<Longrightarrow> fst (turn_to c b pos d cw sw ab w)
                = (if sw then WEIGHT_NOT_STABLE else NO_ERROR, None)"
proof -
  have a: "servo_us w = (servo_us w + step_of (servo_us w) pos) - step_of (servo_us w) pos"
    by simp
  have b: "(servo_us w + step_of (servo_us w) pos) * step_of (servo_us w) pos
            \<le> pos * step_of (servo_us w) pos + 1" if "pos \<noteq> servo_us w"
    using that by (simp add: step_of_def algebra_simps)
  note L = turn_to_loop_reach [where w = w and cur = "servo_us w" and pos = pos
      and i = "servo_us w + step_of (servo_us w) pos" and c = c and b = b and d = d
      and cw = cw and sw = sw and ab = ab and ?p1.0 = "- 9999" and ?p2.0 = "- 9999", OF a b]
  show "fst (turn_to c b pos d cw sw ab w) = (NO_ERROR, None)
          \<Longrightarrow> servo_us (snd (turn_to c b pos d cw sw ab w)) = pos"
    using assms L
    by (auto simp add: turn_to.simps Let_def readMicroseconds_def in_servo_range_def
          split: if_splits)
  show "pos \<noteq> servo_us w \<Longrightarrow> servo_us (snd (turn_to c b pos d cw sw ab w)) = pos
          \<Longrightarrow> CheckAborted True \<notin> set (new_events w (snd (turn_to c b pos d cw sw ab w)))
          \<Longrightarrow> fst (turn_to c b pos d cw sw ab w)
                = (if sw then WEIGHT_NOT_STABLE else NO_ERROR, None)"
    using assms L
    by (auto simp add: turn_to.simps Let_def readMicroseconds_def in_servo_range_def
          split: if_splits)
qed

section \<open>Out-of-range targets and the no-op\<close>

text \<open>
  Claim C3. For every target position outside \<open>[SERVO_MIN, SERVO_MAX]\<close>, \<open>turn_to\<close>
  returns \<open>SERVO_OUT_OF_RANGE\<close> and leaves the surroundings exactly as they were: no
  position is commanded, no delay is taken, no weight sample is read and the abort flag
  is not polled, whatever the flags of the call are. (The debug line \<open>Invalid pos\<close>
  is debug output, which the effect log does not record.)
\<close>

theorem turn_to_out_of_range:
  "pos < SERVO_MIN \<or> SERVO_MAX < pos \<Longrightarrow>
   turn_to c b pos delay_ms check_weight stable_weight enable_abortcheck w
     = ((SERVO_OUT_OF_RANGE, None), w)"
  by (auto simp add: turn_to.simps)

theorem turn_to_out_of_range_witness:
  "(2001 < SERVO_MIN \<or> SERVO_MAX < 2001) \<and>
   turn_to demo_config demo_bottle 2001 5 True True True
       (demo_world 1500 [True] [(NO_ERROR, 3)])
     = ((SERVO_OUT_OF_RANGE, None), demo_world 1500 [True] [(NO_ERROR, 3)])"
  using turn_to_out_of_range [of 2001 demo_config demo_bottle 5 True True True
      "demo_world 1500 [True] [(NO_ERROR, 3)]"]
  by (simp add: SERVO_MAX_def)

text \<open>
  Claim C9. For every call of \<open>turn_to\<close> whose target lies in the valid range and
  equals the position the servo reports, the call returns success and leaves the
  surroundings exactly as they were (no position commanded, no delay, no weight sample,
  no abort poll), whatever the flags \<open>check_weight\<close>, \<open>stable_weight\<close> and
  \<open>enable_abortcheck\<close> are; nothing is stored through \<open>stable_weight\<close>.
\<close>

theorem turn_to_current_pos_noop:
  "SERVO_MIN \<le> pos \<Longrightarrow> pos \<le> SERVO_MAX \<Longrightarrow> readMicroseconds w = pos \<Longrightarrow>
   turn_to c b pos delay_ms check_weight stable_weight enable_abortcheck w
     = ((NO_ERROR, None), w)"
  by (auto simp add: turn_to.simps)

theorem turn_to_current_pos_noop_witness:
  "SERVO_MIN \<le> 1500 \<and> 1500 \<le> SERVO_MAX \<and>
   readMicroseconds (demo_world 1500 [True] [(NO_ERROR, 3)]) = 1500 \<and>
   turn_to demo_config demo_bottle 1500 5 True True True
       (demo_world 1500 [True] [(NO_ERROR, 3)])
     = ((NO_ERROR, None), demo_world 1500 [True] [(NO_ERROR, 3)])"
  using turn_to_current_pos_noop [of 1500 "demo_world 1500 [True] [(NO_ERROR, 3)]"
      demo_config demo_bottle 5 True True True]
  by (simp add: SERVO_MIN_def SERVO_MAX_def readMicroseconds_def demo_defs)

section \<open>Commanded positions\<close>

text \<open>
  Claim C8, as stated, at a concrete call: the servo stands at 1500, the target is 1502
  (both in the valid range), abort checking is enabled and the abort flag is set at the
  first poll. The bottle's \<open>pos_up\<close> is 1498, so the park manoeuvre commands 1499 and
  1498, which do not lie between the starting position and the target.
\<close>

theorem turn_to_steps_between_counterexample:
  "in_servo_range 1502 \<and> in_servo_range (servo_us (demo_world 1500 [True] [])) \<and>
   writes (new_events (demo_world 1500 [True] [])
      (snd (turn_to demo_config demo_bottle 1502 1 False False True (demo_world 1500 [True] []))))
     = [1499, 1498] \<and>
   \<not> list_all (between (servo_us (demo_world 1500 [True] [])) 1502)
      (writes (new_events (demo_world 1500 [True] [])
         (snd (turn_to demo_config demo_bottle 1502 1 False False True
                 (demo_world 1500 [True] [])))))"
  by (simp add: run_defs demo_defs new_events_def in_servo_range_def between_def)

text \<open>
  Claim C8, amended. For every call of \<open>turn_to\<close> whose target and whose starting
  position both lie in \<open>[SERVO_MIN, SERVO_MAX]\<close>, every position commanded during the
  call lies in \<open>[SERVO_MIN, SERVO_MAX]\<close>; as long as no set abort flag is observed,
  every commanded position lies between the starting position and the target (the
  positions commanded by the park manoeuvre after an observed abort lead to \<open>pos_up\<close>
  instead). A target outside the range is answered with \<open>SERVO_OUT_OF_RANGE\<close> and
  nothing is commanded: it is never clamped into the range.
\<close>

theorem turn_to_commands_in_range:
  "(in_servo_range pos \<and> in_servo_range (servo_us w) \<longrightarrow>
      list_all in_servo_range (writes (new_events w (snd (turn_to c b pos d cw sw ab w))))
      \<and> (CheckAborted True \<notin> set (new_events w (snd (turn_to c b pos d cw sw ab w)))
           \<longrightarrow> list_all (between (servo_us w) pos)
                 (writes (new_events w (snd (turn_to c b pos d cw sw ab w))))))
   \<and> (\<not> in_servo_range pos \<longrightarrow>
        turn_to c b pos d cw sw ab w = ((SERVO_OUT_OF_RANGE, None), w))"
proof (intro conjI impI)
  assume "in_servo_range pos \<and> in_servo_range (servo_us w)"
  then show "list_all in_servo_range (writes (new_events w (snd (turn_to c b pos d cw sw ab w))))"
    by (simp add: turn_to_commands(1))
next
  assume "in_servo_range pos \<and> in_servo_range (servo_us w)"
    and "CheckAborted True \<notin> set (new_events w (snd (turn_to c b pos d cw sw ab w)))"
  then show "list_all (between (servo_us w) pos)
                 (writes (new_events w (snd (turn_to c b pos d cw sw ab w))))"
    by (simp add: turn_to_commands(2))
next
  assume "\<not> in_servo_range pos"
  then show "turn_to c b pos d cw sw ab w = ((SERVO_OUT_OF_RANGE, None), w)"
    by (auto simp add: turn_to.simps in_servo_range_def)
qed

theorem turn_to_commands_in_range_witness:
  "in_servo_range 1502 \<and> in_servo_range (servo_us (demo_world 1500 [False, False] [])) \<and>
   writes (new_events (demo_world 1500 [False, False] [])
      (snd (turn_to demo_config demo_bottle 1502 1 False False True
              (demo_world 1500 [False, False] []))))
     = [1501, 1502] \<and>
   CheckAborted True \<notin> set (new_events (demo_world 1500 [False, False] [])
      (snd (turn_to demo_config demo_bottle 1502 1 False False True
              (demo_world 1500 [False, False] [])))) \<and>
   list_all in_servo_range [1501, 1502] \<and>
   list_all (between 1500 1502) [1501, 1502] \<and>
   \<not> in_servo_range 2001 \<and>
   turn_to demo_config demo_bottle 2001 1 False False True (demo_world 1500 [False, False] [])
     = ((SERVO_OUT_OF_RANGE, None), demo_world 1500 [False, False] [])"
  using turn_to_commands_in_range [of 1502 "demo_world 1500 [False, False] []"
          demo_config demo_bottle 1 False False True]
    turn_to_commands_in_range [of 2001 "demo_world 1500 [False, False] []"
          demo_config demo_bottle 1 False False True]
  by (simp add: run_defs demo_defs new_events_def in_servo_range_def between_def)

section \<open>Reaching the target before the weight is stable\<close>

text \<open>
  Claim C2, as stated, at a concrete call: stabilization is requested and the in-range
  target 1500 equals the current position. The call returns success, not
  \<open>WEIGHT_NOT_STABLE\<close>, and no sample has been read.
\<close>

theorem turn_to_not_stable_counterexample:
  "in_servo_range 1500 \<and>
   fst (turn_to demo_config demo_bottle 1500 5 False True True (demo_world 1500 [] []))
     = (NO_ERROR, None) \<and>
   servo_us (snd (turn_to demo_config demo_bottle 1500 5 False True True (demo_world 1500 [] [])))
     = 1500 \<and>
   samples (new_events (demo_world 1500 [] [])
     (snd (turn_to demo_config demo_bottle 1500 5 False True True (demo_world 1500 [] [])))) = []"
  by (simp add: run_defs demo_defs new_events_def in_servo_range_def)

text \<open>
  Claim C2, amended. For every call of \<open>turn_to\<close> with stabilization requested and an
  in-range target that differs from the current position: if the call ends with the servo
  at the target and no set abort flag was observed (the stepping loop ran to its end),
  then \<open>turn_to\<close> reports \<open>WEIGHT_NOT_STABLE\<close> and stores nothing through
  \<open>stable_weight\<close>. Every other way out of the loop leaves the servo short of the
  target; in particular a declared stability does.
\<close>

theorem turn_to_reports_not_stable:
  "in_servo_range pos \<Longrightarrow> pos \<noteq> servo_us w \<Longrightarrow>
   servo_us (snd (turn_to c b pos d cw True ab w)) = pos \<Longrightarrow>
   CheckAborted True \<notin> set (new_events w (snd (turn_to c b pos d cw True ab w))) \<Longrightarrow>
   fst (turn_to c b pos d cw True ab w) = (WEIGHT_NOT_STABLE, None)"
  using turn_to_reach(2) [of pos w c b d cw True ab] by simp

theorem turn_to_reports_not_stable_witness:
  "in_servo_range 1502 \<and>
   1502 \<noteq> servo_us (demo_world 1500 [False, False] [(NO_ERROR, 20), (NO_ERROR, 21)]) \<and>
   servo_us (snd (turn_to demo_config demo_bottle 1502 5 True True True
       (demo_world 1500 [False, False] [(NO_ERROR, 20), (NO_ERROR, 21)]))) = 1502 \<and>
   CheckAborted True \<notin> set (new_events (demo_world 1500 [False, False] [(NO_ERROR, 20), (NO_ERROR, 21)])
       (snd (turn_to demo_config demo_bottle 1502 5 True True True
          (demo_world 1500 [False, False] [(NO_ERROR, 20), (NO_ERROR, 21)])))) \<and>
   fst (turn_to demo_config demo_bottle 1502 5 True True True
       (demo_world 1500 [False, False] [(NO_ERROR, 20), (NO_ERROR, 21)]))
     = (WEIGHT_NOT_STABLE, None)"
  using turn_to_reports_not_stable [of 1502 "demo_world 1500 [False, False] [(NO_ERROR, 20), (NO_ERROR, 21)]"
          demo_config demo_bottle 5 True True]
  by (simp add: run_defs demo_defs new_events_def in_servo_range_def)

section \<open>Abort during a turn\<close>

lemma last_steps_to: "last (a # steps_to a b) = b"
proof -
  consider "a < b" | "b < a" | "a = b" by linarith
  then show ?thesis
  proof cases
    case 1
    then show ?thesis
      by (simp add: steps_to_def upto_rec2 [of "a + 1" b])
  next
    case 2
    then show ?thesis
      by (simp add: steps_to_def upto_rec1 [of b "a - 1"])
  next
    case 3
    then show ?thesis
      by (simp add: steps_to_def)
  qed
qed

text \<open>
  Claim C4. At every iteration of the loop of \<open>turn_to\<close> (the loop condition holds at
  \<open>i\<close>) with abort checking enabled at which the poll finds the abort flag set,
  \<open>turn_to\<close> returns \<open>ABORTED\<close> and stores nothing, whatever \<open>check_weight\<close>,
  \<open>stable_weight\<close> and the remembered samples are. After the poll the only effects are
  those of the park manoeuvre: for each position from the current one to \<open>pos_up\<close>
  the delay \<open>FAST_TURN_UP_DELAY\<close> followed by the command of that position (nothing at
  all when \<open>pos_up\<close> is not a valid position), so the servo ends at \<open>pos_up\<close>;
  no weight sample is read and the abort flag is polled exactly once.
\<close>

theorem abort_parks_and_reports_aborted:
  assumes "i * step_of current_pos pos \<le> pos * step_of current_pos pos"
    and "abort_flag w 0"
  shows "fst (turn_to_loop c b pos delay_ms check_weight stable_weight True current_pos i
                weight_previous1 weight_previous2 w) = (ABORTED, None)
       \<and> new_events w (snd (turn_to_loop c b pos delay_ms check_weight stable_weight True
                current_pos i weight_previous1 weight_previous2 w))
           = CheckAborted True
               # (if in_servo_range (pos_up b)
                  then walk_events (FAST_TURN_UP_DELAY c) (steps_to (servo_us w) (pos_up b))
                  else [])
       \<and> (in_servo_range (pos_up b) \<longrightarrow>
            servo_us (snd (turn_to_loop c b pos delay_ms check_weight stable_weight True
                current_pos i weight_previous1 weight_previous2 w)) = pos_up b)
       \<and> noblock_in (snd (turn_to_loop c b pos delay_ms check_weight stable_weight True
                current_pos i weight_previous1 weight_previous2 w)) = noblock_in w
       \<and> (\<forall>k. abort_flag (snd (turn_to_loop c b pos delay_ms check_weight stable_weight True
                current_pos i weight_previous1 weight_previous2 w)) k = abort_flag w (Suc k))"
proof (cases rule: turn_to_loop_cases [of i current_pos pos c b delay_ms check_weight
          stable_weight True weight_previous1 weight_previous2 w])
  case finished
  with assms show ?thesis by simp
next
  case aborted
  have "last (servo_us w # steps_to (servo_us w) (pos_up b)) = pos_up b"
    by (rule last_steps_to)
  with aborted assms(2) aborted_new_events [of w c b "FAST_TURN_UP_DELAY c"] show ?thesis
    by (simp add: plain_turn_up check_aborted_world in_servo_range_def walk_def
          check_aborted_def emit_def Let_def)
next
  case (stopped r v w2)
  with assms show ?thesis by simp
next
  case (continue p1' p2' w2)
  with assms show ?thesis by simp
qed

theorem abort_parks_and_reports_aborted_witness:
  "1501 * step_of 1500 1502 \<le> 1502 * step_of 1500 1502 \<and>
   abort_flag (demo_world 1500 [True] [(NO_ERROR, 3)]) 0 \<and>
   in_servo_range (pos_up demo_bottle) \<and>
   fst (turn_to_loop demo_config demo_bottle 1502 7 True True True 1500 1501 (- 9999) (- 9999)
          (demo_world 1500 [True] [(NO_ERROR, 3)])) = (ABORTED, None) \<and>
   new_events (demo_world 1500 [True] [(NO_ERROR, 3)])
      (snd (turn_to_loop demo_config demo_bottle 1502 7 True True True 1500 1501 (- 9999) (- 9999)
          (demo_world 1500 [True] [(NO_ERROR, 3)])))
     = [CheckAborted True, Delay 2, ServoWrite 1499, Delay 2, ServoWrite 1498] \<and>
   servo_us (snd (turn_to_loop demo_config demo_bottle 1502 7 True True True 1500 1501
          (- 9999) (- 9999) (demo_world 1500 [True] [(NO_ERROR, 3)]))) = 1498"
  using abort_parks_and_reports_aborted [of 1501 1500 1502 "demo_world 1500 [True] [(NO_ERROR, 3)]"
          demo_config demo_bottle 7 True True "- 9999" "- 9999"]
  by (simp add: run_defs demo_defs new_events_def in_servo_range_def walk_events_def steps_to_def)

section \<open>Missing cup during a turn\<close>

text \<open>
  Claim C7. At every iteration of the loop of \<open>turn_to\<close> with weight checking
  requested, at which no abort is reported and the non-blocking read yields a valid
  sample below \<open>WEIGHT_EPSILON\<close>, \<open>turn_to\<close> returns
  \<open>WHERE_THE_FUCK_IS_THE_CUP\<close> at once: the effects of the iteration are the abort
  poll (if enabled) and the read, no delay is taken, no position is commanded and the
  servo stays where it was.
\<close>

theorem cup_missing_stops_turning:
  assumes "i * step_of current_pos pos \<le> pos * step_of current_pos pos"
    and "enable_abortcheck \<longrightarrow> \<not> abort_flag w 0"
    and "noblock_in w 0 = (NO_ERROR, weight)"
    and "weight < WEIGHT_EPSILON c"
  shows "fst (turn_to_loop c b pos delay_ms True stable_weight enable_abortcheck current_pos i
                weight_previous1 weight_previous2 w) = (WHERE_THE_FUCK_IS_THE_CUP, None)
       \<and> new_events w (snd (turn_to_loop c b pos delay_ms True stable_weight enable_abortcheck
                current_pos i weight_previous1 weight_previous2 w))
           = (if enable_abortcheck then [CheckAborted False] else []) @ [GetNoblock NO_ERROR weight]
       \<and> servo_us (snd (turn_to_loop c b pos delay_ms True stable_weight enable_abortcheck
                current_pos i weight_previous1 weight_previous2 w)) = servo_us w"
  using assms
  by (simp add: turn_to_loop.simps [of c b pos delay_ms True stable_weight _ current_pos i]
        check_aborted_def check_scale_def ads1231_get_noblock_def emit_def new_events_def Let_def)

theorem cup_missing_stops_turning_witness:
  "1501 * step_of 1500 1502 \<le> 1502 * step_of 1500 1502 \<and>
   \<not> abort_flag (demo_world 1500 [False] [(NO_ERROR, 3)]) 0 \<and>
   noblock_in (demo_world 1500 [False] [(NO_ERROR, 3)]) 0 = (NO_ERROR, 3) \<and>
   3 < WEIGHT_EPSILON demo_config \<and>
   fst (turn_to_loop demo_config demo_bottle 1502 7 True True True 1500 1501 (- 9999) (- 9999)
          (demo_world 1500 [False] [(NO_ERROR, 3)])) = (WHERE_THE_FUCK_IS_THE_CUP, None) \<and>
   new_events (demo_world 1500 [False] [(NO_ERROR, 3)])
      (snd (turn_to_loop demo_config demo_bottle 1502 7 True True True 1500 1501 (- 9999) (- 9999)
          (demo_world 1500 [False] [(NO_ERROR, 3)])))
     = [CheckAborted False, GetNoblock NO_ERROR 3] \<and>
   servo_us (snd (turn_to_loop demo_config demo_bottle 1502 7 True True True 1500 1501
          (- 9999) (- 9999) (demo_world 1500 [False] [(NO_ERROR, 3)]))) = 1500"
  using cup_missing_stops_turning [of 1501 1500 1502 True "demo_world 1500 [False] [(NO_ERROR, 3)]"
          3 demo_config demo_bottle 7 True "- 9999" "- 9999"]
  by (simp add: demo_defs step_of_def)

section \<open>Stabilization\<close>

lemma remembered_snoc: "remembered (hs @ [x]) = (x, fst (remembered hs))"
  by (simp add: remembered_def split: list.splits)

lemma ends_stable_snoc:
  "ends_stable (hs @ [x]) \<longleftrightarrow>
     2 \<le> length hs \<and> x = fst (remembered hs) \<and> fst (remembered hs) = snd (remembered hs)"
  by (cases "rev hs"; cases "tl (rev hs)")
     (auto simp add: ends_stable_def remembered_def split: list.splits)

lemma remembered_short:
  "length hs < 2 \<Longrightarrow> snd (remembered hs) = - 9999"
  "hs = [] \<Longrightarrow> fst (remembered hs) = - 9999"
  "length hs = 1 \<Longrightarrow> fst (remembered hs) = hd hs"
  "2 \<le> length hs \<Longrightarrow> fst (remembered hs) = last hs"
  by (cases hs rule: rev_cases; cases "butlast hs" rule: rev_cases;
      auto simp add: remembered_def split: list.splits)+

lemma check_scale_stable_cases [consumes 1, case_names blocked cup stable tracked]:
  assumes "check_scale c cw True p1 p2 w0 = (x, w2)"
  obtains
    (blocked) "samples (new_events w0 w2) = []" "x = Go p1 p2 \<or> (\<exists>r. x = Stop r None)"
  | (cup) wt where "samples (new_events w0 w2) = [wt]" "cw" "wt < WEIGHT_EPSILON c"
      "x = Stop WHERE_THE_FUCK_IS_THE_CUP None"
  | (stable) wt where "samples (new_events w0 w2) = [wt]" "\<not> (cw \<and> wt < WEIGHT_EPSILON c)"
      "p2 = p1" "p1 = wt" "x = Stop NO_ERROR (Some wt)"
  | (tracked) wt where "samples (new_events w0 w2) = [wt]" "\<not> (cw \<and> wt < WEIGHT_EPSILON c)"
      "\<not> (p2 = p1 \<and> p1 = wt)" "x = Go wt p1"
proof -
  obtain ret wt where n: "noblock_in w0 0 = (ret, wt)"
    by (cases "noblock_in w0 0")
  have ev: "new_events w0 w2 = [GetNoblock ret wt]"
    using assms n
    by (auto simp add: check_scale_def ads1231_get_noblock_def emit_def new_events_def Let_def
          split: if_splits)
  show thesis
  proof (cases "ret = NO_ERROR")
    case False
    then have "samples (new_events w0 w2) = []" by (simp add: ev)
    moreover have "x = Go p1 p2 \<or> (\<exists>r. x = Stop r None)"
      using assms n False
      by (auto simp add: check_scale_def ads1231_get_noblock_def Let_def split: if_splits)
    ultimately show thesis by (rule blocked)
  next
    case ok: True
    then have s: "samples (new_events w0 w2) = [wt]" by (simp add: ev)
    show thesis
    proof (cases "cw \<and> wt < WEIGHT_EPSILON c")
      case True
      with assms n ok have "x = Stop WHERE_THE_FUCK_IS_THE_CUP None"
        by (auto simp add: check_scale_def ads1231_get_noblock_def Let_def)
      with s True show thesis by (intro cup [of wt]) simp_all
    next
      case nc: False
      show thesis
      proof (cases "p2 = p1 \<and> p1 = wt")
        case True
        with assms n ok nc have "x = Stop NO_ERROR (Some wt)"
          by (auto simp add: check_scale_def ads1231_get_noblock_def Let_def)
        with s nc True show thesis by (intro stable [of wt]) simp_all
      next
        case False
        with assms n ok nc have "x = Go wt p1"
          by (auto simp add: check_scale_def ads1231_get_noblock_def Let_def)
        with s nc False show thesis by (intro tracked [of wt]) simp_all
      qed
    qed
  qed
qed

lemma polled_samples:
  assumes "check_scale c cw sw p1 p2 (if ab then snd (check_aborted w) else w) = (x, w2)"
  shows "samples (new_events w w2)
           = samples (new_events (if ab then snd (check_aborted w) else w) w2)"
proof -
  from check_scale_world(3) [OF assms]
  obtain evs where e: "events w2 = events (if ab then snd (check_aborted w) else w) @ evs"
    by blast
  show ?thesis
  proof (cases ab)
    case True
    with e have "events w2 = events w @ (CheckAborted (abort_flag w 0) # evs)"
      by (simp add: check_aborted_world)
    from new_events_append [OF this] new_events_append [OF e] show ?thesis by simp
  next
    case False
    then show ?thesis by simp
  qed
qed

lemma spec_nil: "stable_spec c cw hs [] (r, None)"
  by (simp add: stable_spec_def)

lemma one_le_one: "1 \<le> n \<and> n \<le> Suc 0 \<longleftrightarrow> n = Suc 0"
  by auto

lemma spec_cup:
  assumes "cw" and "wt < WEIGHT_EPSILON c" and "\<forall>x\<in>set hs. WEIGHT_EPSILON c \<le> x"
    and "(p1, p2) = remembered hs"
  shows "stable_spec c cw hs [wt] (r, None)"
proof -
  have "\<not> ends_stable (hs @ [wt])"
  proof
    assume "ends_stable (hs @ [wt])"
    then have "2 \<le> length hs" and "wt = fst (remembered hs)"
      by (simp_all add: ends_stable_snoc)
    then have "wt = last hs" and "hs \<noteq> []"
      by (auto simp add: remembered_short)
    then have "wt \<in> set hs" by simp
    with assms(2,3) show False by auto
  qed
  then show ?thesis
    by (simp add: stable_spec_def one_le_one)
qed

lemma spec_stable:
  assumes "\<not> (cw \<and> wt < WEIGHT_EPSILON c)" and "p2 = p1" and "p1 = wt"
    and "(p1, p2) = remembered hs" and "cw \<longrightarrow> (\<forall>x\<in>set hs. WEIGHT_EPSILON c \<le> x)"
  shows "stable_spec c cw hs [wt] (NO_ERROR, Some wt)"
  unfolding stable_spec_def
proof (intro impI)
  assume H: "(cw \<and> - 9999 < WEIGHT_EPSILON c) \<or> - 9999 \<notin> set (take 1 (hs @ [wt]))"
  from assms(2,3,4) have r: "fst (remembered hs) = wt" "snd (remembered hs) = wt"
    by (metis fst_conv, metis snd_conv)
  have "2 \<le> length hs"
  proof (rule ccontr)
    assume "\<not> 2 \<le> length hs"
    then have short: "length hs < 2" by simp
    with r have w9: "wt = - 9999" by (simp add: remembered_short)
    from short consider "hs = []" | "length hs = 1" by (cases hs) auto
    then have "hd (hs @ [wt]) = - 9999"
    proof cases
      case 1
      with w9 show ?thesis by simp
    next
      case 2
      with r w9 have "hd hs = - 9999" by (simp add: remembered_short)
      moreover from 2 have "hs \<noteq> []" by auto
      ultimately show ?thesis by simp
    qed
    then have in1: "- 9999 \<in> set (take 1 (hs @ [wt]))"
      by (cases "hs @ [wt]") auto
    with H have cw: "cw" and lt: "- 9999 < WEIGHT_EPSILON c" by auto
    from in1 have "- 9999 \<in> set hs \<or> wt = - 9999"
      by (cases hs) auto
    with cw lt assms(1,5) w9 show False by auto
  qed
  with r have "ends_stable (hs @ [wt])"
    by (simp add: ends_stable_snoc)
  then show "(\<forall>n. 1 \<le> n \<and> n \<le> length [wt] \<longrightarrow>
            (ends_stable (hs @ take n [wt]) \<longleftrightarrow> (n = length [wt] \<and> snd (NO_ERROR, Some wt) \<noteq> None)))
       \<and> (snd (NO_ERROR, Some wt) \<noteq> None \<longrightarrow>
            fst (NO_ERROR, Some wt) = NO_ERROR \<and> [wt] \<noteq> []
            \<and> snd (NO_ERROR, Some wt) = Some (last [wt]))"
    by (simp add: one_le_one)
qed

lemma spec_tracked:
  assumes "\<not> (p2 = p1 \<and> p1 = wt)" and "(p1, p2) = remembered hs"
    and "stable_spec c cw (hs @ [wt]) ss res"
  shows "stable_spec c cw hs (wt # ss) res"
  unfolding stable_spec_def
proof (intro impI)
  assume H: "(cw \<and> - 9999 < WEIGHT_EPSILON c) \<or> - 9999 \<notin> set (take 1 (hs @ wt # ss))"
  then have H': "(cw \<and> - 9999 < WEIGHT_EPSILON c) \<or> - 9999 \<notin> set (take 1 ((hs @ [wt]) @ ss))"
    by simp
  from assms(3) [unfolded stable_spec_def, rule_format, OF H'] have
    A: "\<forall>n. 1 \<le> n \<and> n \<le> length ss \<longrightarrow>
            (ends_stable ((hs @ [wt]) @ take n ss) \<longleftrightarrow> (n = length ss \<and> snd res \<noteq> None))"
    and B: "snd res \<noteq> None \<longrightarrow> fst res = NO_ERROR \<and> ss \<noteq> [] \<and> snd res = Some (last ss)"
    by blast+
  from assms(1,2) have r: "\<not> (snd (remembered hs) = fst (remembered hs) \<and> fst (remembered hs) = wt)"
    by (metis fst_conv snd_conv)
  then have first: "\<not> ends_stable (hs @ [wt])"
    by (auto simp add: ends_stable_snoc)
  have "ends_stable (hs @ take n (wt # ss)) \<longleftrightarrow> (n = length (wt # ss) \<and> snd res \<noteq> None)"
    if n: "1 \<le> n \<and> n \<le> length (wt # ss)" for n
  proof (cases n)
    case 0
    with n show ?thesis by simp
  next
    case (Suc m)
    show ?thesis
    proof (cases m)
      case 0
      with Suc first B show ?thesis by auto
    next
      case (Suc k)
      with \<open>n = Suc m\<close> n have "1 \<le> m \<and> m \<le> length ss" by simp
      with A have "ends_stable ((hs @ [wt]) @ take m ss) \<longleftrightarrow> (m = length ss \<and> snd res \<noteq> None)"
        by blast
      with \<open>n = Suc m\<close> show ?thesis by simp
    qed
  qed
  with B show "(\<forall>n. 1 \<le> n \<and> n \<le> length (wt # ss) \<longrightarrow>
            (ends_stable (hs @ take n (wt # ss)) \<longleftrightarrow> (n = length (wt # ss) \<and> snd res \<noteq> None)))
       \<and> (snd res \<noteq> None \<longrightarrow> fst res = NO_ERROR \<and> wt # ss \<noteq> [] \<and> snd res = Some (last (wt # ss)))"
    by auto
qed

lemma turn_to_loop_stable:
  "\<forall>hs. (p1, p2) = remembered hs \<longrightarrow> (cw \<longrightarrow> (\<forall>x\<in>set hs. WEIGHT_EPSILON c \<le> x)) \<longrightarrow>
     stable_spec c cw hs
       (samples (new_events w (snd (turn_to_loop c b pos d cw True ab cur i p1 p2 w))))
       (fst (turn_to_loop c b pos d cw True ab cur i p1 p2 w))"
proof (induction i p1 p2 w rule: turn_to_loop_induct [where cur = cur and pos = pos])
  case (iter i p1 p2 w)
  show ?case
  proof (intro allI impI)
    fix hs
    assume inv: "(p1, p2) = remembered hs" and ge: "cw \<longrightarrow> (\<forall>x\<in>set hs. WEIGHT_EPSILON c \<le> x)"
    show "stable_spec c cw hs
       (samples (new_events w (snd (turn_to_loop c b pos d cw True ab cur i p1 p2 w))))
       (fst (turn_to_loop c b pos d cw True ab cur i p1 p2 w))"
    proof (cases rule: turn_to_loop_cases [of i cur pos c b d cw True ab p1 p2 w])
      case finished
      then show ?thesis by (simp add: spec_nil)
    next
      case aborted
      then show ?thesis by (simp add: aborted_new_events spec_nil)
    next
      case (stopped r v w2)
      note ps = polled_samples [OF stopped(3)]
      from stopped(3) show ?thesis
      proof (cases rule: check_scale_stable_cases)
        case blocked
        with stopped(4) ps show ?thesis by (auto simp add: spec_nil)
      next
        case (cup wt)
        with stopped(4) ps ge inv show ?thesis by (simp add: spec_cup)
      next
        case (stable wt)
        with stopped(4) ps ge inv show ?thesis by (simp add: spec_stable)
      next
        case (tracked wt)
        with stopped(3) show ?thesis by simp
      qed
    next
      case (continue p1' p2' w2)
      let ?w = "writeMicroseconds i (delay d w2)"
      let ?next = "turn_to_loop c b pos d cw True ab cur (i + step_of cur pos) p1' p2' ?w"
      note ps = polled_samples [OF continue(3)]
      note IH = iter [OF continue(1), of p1' p2' ?w, THEN spec, THEN mp, THEN mp]
      have ss: "samples (new_events w (snd ?next))
             = samples (new_events w w2) @ samples (new_events ?w (snd ?next))"
        by (simp add: turn_to_loop_new_events [OF continue(1,2,3)])
      from continue(3) show ?thesis
      proof (cases rule: check_scale_stable_cases)
        case blocked
        with continue(3) have "p1' = p1" "p2' = p2" by auto
        with inv have "(p1', p2') = remembered hs" by simp
        from IH [OF this ge]
        have "stable_spec c cw hs (samples (new_events ?w (snd ?next))) (fst ?next)" .
        with blocked(1) ps show ?thesis
          by (simp add: continue(4) ss)
      next
        case (cup wt)
        with continue(3) show ?thesis by simp
      next
        case (stable wt)
        with continue(3) show ?thesis by simp
      next
        case (tracked wt)
        with continue(3) have p: "p1' = wt" "p2' = p1" by auto
        from inv have "(wt, p1) = remembered (hs @ [wt])"
          by (simp add: remembered_snoc) (metis fst_conv)
        with p have i1: "(p1', p2') = remembered (hs @ [wt])" by simp
        from tracked(2) ge have i2: "cw \<longrightarrow> (\<forall>x\<in>set (hs @ [wt]). WEIGHT_EPSILON c \<le> x)"
          by auto
        from IH [OF i1 i2]
        have "stable_spec c cw (hs @ [wt]) (samples (new_events ?w (snd ?next))) (fst ?next)" .
        from spec_tracked [OF tracked(3) inv this] tracked(1) ps show ?thesis
          by (simp add: continue(4) ss)
      qed
    qed
  qed
qed

text \<open>
  Claim C1, as stated, at a concrete call: stabilization is requested without the weight
  check and the first valid sample is \<open>-9999\<close>, the value the two remembered samples
  start with. The call declares the weight stable after this single sample.
\<close>

theorem turn_to_stable_counterexample:
  "fst (turn_to demo_config demo_bottle 1502 5 False True False
          (demo_world 1500 [] [(NO_ERROR, - 9999)])) = (NO_ERROR, Some (- 9999)) \<and>
   samples (new_events (demo_world 1500 [] [(NO_ERROR, - 9999)])
      (snd (turn_to demo_config demo_bottle 1502 5 False True False
              (demo_world 1500 [] [(NO_ERROR, - 9999)])))) = [- 9999] \<and>
   \<not> ends_stable [- 9999]"
  by (simp add: run_defs demo_defs new_events_def in_servo_range_def ends_stable_def)

text \<open>
  Claim C1, amended. Let \<open>ss\<close> be the valid samples a call of \<open>turn_to\<close> with
  stabilization requested reads without blocking, in order, and let the first of them not
  be mistaken for the initial value \<open>-9999\<close> of the remembered samples: it differs
  from \<open>-9999\<close>, or the weight check is on with \<open>WEIGHT_EPSILON\<close> above \<open>-9999\<close>
  (as \<open>pour\<close> calls it). Then for every \<open>n\<close> the first \<open>n\<close> samples end with three
  equal values if and only if the \<open>n\<close>-th sample is the last one read and the call
  stores a stable weight; a call that stores a stable weight returns success and stores
  the last sample. So stability is declared exactly when three consecutive samples are
  equal, never on two equal samples followed by a different one, and never before three
  samples have been read.
\<close>

theorem turn_to_stable_iff_three_equal:
  assumes "res = turn_to c b pos delay_ms check_weight True enable_abortcheck w"
    and "ss = samples (new_events w (snd res))"
    and "(check_weight \<and> - 9999 < WEIGHT_EPSILON c) \<or> - 9999 \<notin> set (take 1 ss)"
  shows "(\<forall>n\<le>length ss. ends_stable (take n ss) \<longleftrightarrow> (n = length ss \<and> snd (fst res) \<noteq> None))
       \<and> (snd (fst res) \<noteq> None \<longrightarrow> fst (fst res) = NO_ERROR \<and> snd (fst res) = Some (last ss))"
proof -
  have "stable_spec c check_weight [] ss (fst res)"
  proof (cases "(pos < SERVO_MIN \<or> SERVO_MAX < pos) \<or> pos = readMicroseconds w")
    case True
    then have "res = ((SERVO_OUT_OF_RANGE, None), w) \<or> res = ((NO_ERROR, None), w)"
      by (auto simp add: assms(1) turn_to.simps)
    then show ?thesis
      by (auto simp add: assms(2) spec_nil)
  next
    case False
    then have "res = turn_to_loop c b pos delay_ms check_weight True enable_abortcheck
        (readMicroseconds w) (readMicroseconds w + step_of (readMicroseconds w) pos)
        (- 9999) (- 9999) w"
      by (simp add: assms(1) turn_to.simps Let_def)
    moreover have "(- 9999, - 9999) = remembered []"
      by (simp add: remembered_def)
    ultimately show ?thesis
      using turn_to_loop_stable [of "- 9999" "- 9999" check_weight c w b pos delay_ms enable_abortcheck
          "readMicroseconds w" "readMicroseconds w + step_of (readMicroseconds w) pos"]
      by (simp add: assms(2))
  qed
  with assms(3) have
    A: "\<forall>n. 1 \<le> n \<and> n \<le> length ss \<longrightarrow>
            (ends_stable (take n ss) \<longleftrightarrow> (n = length ss \<and> snd (fst res) \<noteq> None))"
    and B: "snd (fst res) \<noteq> None \<longrightarrow>
            fst (fst res) = NO_ERROR \<and> ss \<noteq> [] \<and> snd (fst res) = Some (last ss)"
    by (simp_all add: stable_spec_def)
  have "ends_stable (take n ss) \<longleftrightarrow> (n = length ss \<and> snd (fst res) \<noteq> None)" if "n \<le> length ss" for n
  proof (cases "n = 0")
    case True
    with B show ?thesis by (auto simp add: ends_stable_def)
  next
    case False
    with that A show ?thesis by simp
  qed
  with B show ?thesis by blast
qed

theorem turn_to_stable_iff_three_equal_witness:
  "(True \<and> - 9999 < WEIGHT_EPSILON demo_config) \<and>
   samples (new_events
      (demo_world 1500 [] [(NO_ERROR, 20), (ADS1231_WOULD_BLOCK, 0), (NO_ERROR, 20), (NO_ERROR, 20)])
      (snd (turn_to demo_config demo_bottle 1505 5 True True True
         (demo_world 1500 [] [(NO_ERROR, 20), (ADS1231_WOULD_BLOCK, 0), (NO_ERROR, 20), (NO_ERROR, 20)]))))
     = [20, 20, 20] \<and>
   fst (turn_to demo_config demo_bottle 1505 5 True True True
         (demo_world 1500 [] [(NO_ERROR, 20), (ADS1231_WOULD_BLOCK, 0), (NO_ERROR, 20), (NO_ERROR, 20)]))
     = (NO_ERROR, Some 20) \<and>
   ends_stable (take 3 [20, 20, 20]) \<and> \<not> ends_stable (take 2 [20, 20, 20]) \<and>
   \<not> ends_stable (take 1 [20, 20, 20]) \<and> \<not> ends_stable (take 0 [20, 20, 20])"
  using turn_to_stable_iff_three_equal [of _ demo_config demo_bottle 1505 5 True True
      "demo_world 1500 [] [(NO_ERROR, 20), (ADS1231_WOULD_BLOCK, 0), (NO_ERROR, 20), (NO_ERROR, 20)]",
      OF refl refl]
  by (simp add: run_defs demo_defs new_events_def in_servo_range_def ends_stable_def)

section \<open>Facts about \<open>pour\<close>\<close>

lemma pouring_weights_append [simp]:
  "pouring_weights (xs @ ys) = pouring_weights xs @ pouring_weights ys"
  by (induction xs rule: pouring_weights.induct) simp_all

lemma turn_event_quiet: "list_all turn_event evs \<Longrightarrow> pouring_weights evs = []"
  by (induction evs rule: pouring_weights.induct) simp_all

lemma announces_refl [simp]: "announces [] w w"
  by (simp add: announces_def)

lemma announces_trans:
  "announces xs w w1 \<Longrightarrow> announces ys w1 w2 \<Longrightarrow> announces (xs @ ys) w w2"
  by (auto simp add: announces_def)

lemma announces_quiet_trans:
  "announces [] w w1 \<Longrightarrow> announces ys w1 w2 \<Longrightarrow> announces ys w w2"
  using announces_trans [of "[]" w w1 ys w2] by simp

lemma announces_new_events:
  "announces xs w w' \<Longrightarrow> pouring_weights (new_events w w') = xs"
  by (auto simp add: announces_def new_events_def)

lemma announces_turn_to: "announces [] w (snd (turn_to c b pos d cw sw ab w))"
  using turn_to_extends [of c b pos d cw sw ab w]
  by (auto simp add: announces_def turn_event_quiet)

lemma snd_turn_down:
  "snd (turn_down c b d cw w) = snd (turn_to c b (pos_down b) d cw False (ABORTCHECK_DEFAULT c) w)"
  by (simp add: turn_down_def split: prod.splits)

lemma snd_turn_to_pause_pos:
  "snd (turn_to_pause_pos c b d w)
     = snd (turn_to c b (get_pause_pos b) d False False (ABORTCHECK_DEFAULT c) w)"
  by (simp add: turn_to_pause_pos_def split: prod.splits)

lemma announces_turn_down: "announces [] w (snd (turn_down c b d cw w))"
  by (simp add: snd_turn_down announces_turn_to)

lemma announces_turn_to_pause_pos: "announces [] w (snd (turn_to_pause_pos c b d w))"
  by (simp add: snd_turn_to_pause_pos announces_turn_to)

lemma announces_external:
  "announces [] w (snd (ads1231_get_stable_grams w))"
  "announces [] w (snd (ads1231_get_grams w))"
  "announces [] w (snd (wait_for_cup w))"
  "announces [] w (snd (wait_for_resume w))"
  "announces [] w (snd (delay_until t g h w))"
  "announces [] w (print_lcd s l w)"
  "announces [] w (ERROR_MSG e n w)"
  "announces [x] w (MSG_POURING k x w)"
  by (simp_all add: announces_def pour_defs emit_def Let_def split: prod.splits)

lemma announces_measure_baseline: "announces [] w (snd (measure_baseline c b ow w))"
proof -
  let ?t = "turn_to c b (c_div2 (pos_down b + get_pause_pos b)) (TURN_DOWN_DELAY c) True True
              (ABORTCHECK_DEFAULT c) w"
  have 1: "announces [] w (snd ?t)" by (rule announces_turn_to)
  have 2: "announces [] (snd ?t) (snd (ads1231_get_stable_grams (snd ?t)))"
    by (rule announces_external)
  note 3 = announces_quiet_trans [OF 1 2]
  obtain ret st w1 where t: "?t = ((ret, st), w1)"
    by (cases ?t) auto
  from 1 3 show ?thesis
    by (simp add: measure_baseline_def Let_def t)
qed

lemma pour_baseline_quiet:
  "announces [] w (snd (pour_baseline fuel c b ow w))
   \<and> (\<forall>x. fst (pour_baseline fuel c b ow w) = Some (Break x) \<longrightarrow> WEIGHT_EPSILON c \<le> x)
   \<and> fst (pour_baseline fuel c b ow w) \<noteq> Some (Return NO_ERROR)"
proof (induction fuel arbitrary: ow w)
  case 0
  show ?case by simp
next
  case (Suc fuel)
  obtain ret ow' w2 where m: "measure_baseline c b ow w = ((ret, ow'), w2)"
    by (cases "measure_baseline c b ow w") auto
  obtain r w3 where c: "wait_for_cup w2 = (r, w3)"
    by (cases "wait_for_cup w2")
  from announces_measure_baseline [of w c b ow] m have 1: "announces [] w w2" by simp
  from announces_external(3) [of w2] c have 2: "announces [] w2 w3" by simp
  note 3 = announces_quiet_trans [OF 1 2]
  from Suc.IH [where ow = ow' and w = w3] have
    4: "announces [] w3 (snd (pour_baseline fuel c b ow' w3))"
    and 5: "\<forall>x. fst (pour_baseline fuel c b ow' w3) = Some (Break x) \<longrightarrow> WEIGHT_EPSILON c \<le> x"
    and 7: "fst (pour_baseline fuel c b ow' w3) \<noteq> Some (Return NO_ERROR)"
    by blast+
  note 6 = announces_quiet_trans [OF 3 4]
  show ?case
    using 1 3 5 6 7 by (simp add: m c)
qed

lemma announces_pour_attempt:
  "announces [ow] w (snd (pour_attempt c b req ow w))"
proof -
  let ?m = "MSG_POURING (number b) ow w"
  let ?t = "turn_down c b (TURN_DOWN_DELAY c) True ?m"
  let ?u = "delay_until (POURING_TIMEOUT c)
      (wrap_int16 (ow + req - UPGRIGHT_OFFSET c)) True (snd ?t)"
  have 1: "announces [ow] w ?m" by (rule announces_external)
  have 2: "announces [] ?m (snd ?t)" by (rule announces_turn_down)
  have 3: "announces [] (snd ?t) (snd ?u)" by (rule announces_external)
  from announces_trans [OF 1 2] have 4: "announces [ow] w (snd ?t)" by simp
  from announces_trans [OF 4 3] have 5: "announces [ow] w (snd ?u)" by simp
  obtain ret w1 where t: "?t = (ret, w1)" by (cases ?t)
  from 4 5 show ?thesis
    by (simp add: pour_attempt_def t)
qed

lemma pour_attempt_first:
  "take 1 (new_events w (snd (pour_attempt c b req ow w))) = [MsgPouring (number b) ow]"
proof -
  let ?m = "MSG_POURING (number b) ow w"
  have "announces [] ?m (snd (pour_attempt c b req ow w))"
  proof -
    let ?t = "turn_down c b (TURN_DOWN_DELAY c) True ?m"
    let ?u = "delay_until (POURING_TIMEOUT c)
      (wrap_int16 (ow + req - UPGRIGHT_OFFSET c)) True (snd ?t)"
    have 2: "announces [] ?m (snd ?t)" by (rule announces_turn_down)
    have 3: "announces [] (snd ?t) (snd ?u)" by (rule announces_external)
    note 4 = announces_quiet_trans [OF 2 3]
    obtain ret w1 where t: "?t = (ret, w1)" by (cases ?t)
    from 2 4 show ?thesis
      by (simp add: pour_attempt_def t)
  qed
  then obtain evs where "events (snd (pour_attempt c b req ow w)) = events ?m @ evs"
    by (auto simp add: announces_def)
  then have "events (snd (pour_attempt c b req ow w)) = events w @ (MsgPouring (number b) ow # evs)"
    by (simp add: MSG_POURING_def emit_def)
  from new_events_append [OF this] show ?thesis by simp
qed

lemma pour_loop_announces:
  "\<exists>k. announces (replicate k ow) w (snd (pour_loop fuel c b req ow w))
       \<and> (fst (pour_loop fuel c b req ow w) = Some (Break ()) \<longrightarrow> 0 < k)
       \<and> fst (pour_loop fuel c b req ow w) \<noteq> Some (Return NO_ERROR)"
proof (induction fuel arbitrary: w)
  case 0
  have "announces (replicate 0 ow) w w" by simp
  then show ?case by (intro exI [of _ 0]) simp
next
  case (Suc fuel)
  obtain ret w1 where a: "pour_attempt c b req ow w = (ret, w1)"
    by (cases "pour_attempt c b req ow w")
  from announces_pour_attempt [of ow w c b req] a have 1: "announces [ow] w w1" by simp
  have one: "\<exists>k. announces (replicate k ow) w w1 \<and> 0 < k"
    using 1 by (intro exI [of _ 1]) simp
  have more: "\<exists>k. announces (replicate k ow) w (snd (pour_loop fuel c b req ow w'))
       \<and> (fst (pour_loop fuel c b req ow w') = Some (Break ()) \<longrightarrow> 0 < k)
       \<and> fst (pour_loop fuel c b req ow w') \<noteq> Some (Return NO_ERROR)"
    if q: "announces [] w1 w'" for w'
  proof -
    from Suc [of w'] obtain k where
      k: "announces (replicate k ow) w' (snd (pour_loop fuel c b req ow w'))"
      and n: "fst (pour_loop fuel c b req ow w') \<noteq> Some (Return NO_ERROR)"
      by blast
    from announces_trans [OF announces_trans [OF 1 q] k]
    have "announces (replicate (Suc k) ow) w (snd (pour_loop fuel c b req ow w'))"
      by simp
    with n show ?thesis by (intro exI [of _ "Suc k"]) simp
  qed
  have stop: "\<exists>k. announces (replicate k ow) w w'
       \<and> (Some (Return r) = Some (Break ()) \<longrightarrow> 0 < k)"
    if q: "announces [] w1 w'" for w' r
    using announces_trans [OF 1 q] by (intro exI [of _ 1]) simp
  show ?case
  proof (cases "ret = NO_ERROR")
    case True
    with one show ?thesis by (simp add: a)
  next
    case n0: False
    show ?thesis
    proof (cases "ret = BOTTLE_EMPTY")
      case True
      let ?e = "ERROR_MSG BOTTLE_EMPTY (Some (number b)) w1"
      obtain r v w2 where t: "turn_to c b (pos_up b + BOTTLE_EMPTY_POS_OFFSET c) (TURN_UP_DELAY c)
                    False False (ABORTCHECK_DEFAULT c) ?e = ((r, v), w2)"
        by (cases "turn_to c b (pos_up b + BOTTLE_EMPTY_POS_OFFSET c) (TURN_UP_DELAY c)
                    False False (ABORTCHECK_DEFAULT c) ?e") auto
      obtain e w3 where r: "wait_for_resume w2 = (e, w3)"
        by (cases "wait_for_resume w2")
      have "announces [] w1 ?e" by (rule announces_external)
      moreover from announces_turn_to [of ?e c b "pos_up b + BOTTLE_EMPTY_POS_OFFSET c"
          "TURN_UP_DELAY c" False False "ABORTCHECK_DEFAULT c"] t
      have "announces [] ?e w2" by simp
      ultimately have q2: "announces [] w1 w2" by (rule announces_quiet_trans)
      from announces_external(4) [of w2] r have "announces [] w2 w3" by simp
      with q2 have q3: "announces [] w1 w3" by (rule announces_quiet_trans)
      have "announces [] w3 (print_lcd [] 2 w3)" by (rule announces_external)
      with q3 have q4: "announces [] w1 (print_lcd [] 2 w3)" by (rule announces_quiet_trans)
      from stop [OF q2, of r] stop [OF q3, of e] more [OF q4] True show ?thesis
        by (simp add: a t r)
    next
      case ne: False
      show ?thesis
      proof (cases "ret = WHERE_THE_FUCK_IS_THE_CUP")
        case True
        let ?e = "ERROR_MSG WHERE_THE_FUCK_IS_THE_CUP None w1"
        obtain r w2 where t: "turn_to_pause_pos c b (FAST_TURN_UP_DELAY c) ?e = (r, w2)"
          by (cases "turn_to_pause_pos c b (FAST_TURN_UP_DELAY c) ?e")
        obtain e w3 where r: "wait_for_cup w2 = (e, w3)"
          by (cases "wait_for_cup w2")
        have "announces [] w1 ?e" by (rule announces_external)
        moreover from announces_turn_to_pause_pos [of ?e c b "FAST_TURN_UP_DELAY c"] t
        have "announces [] ?e w2" by simp
        ultimately have q2: "announces [] w1 w2" by (rule announces_quiet_trans)
        from announces_external(3) [of w2] r have "announces [] w2 w3" by simp
        with q2 have q3: "announces [] w1 w3" by (rule announces_quiet_trans)
        have "announces [] w3 (print_lcd [] 2 w3)" by (rule announces_external)
        with q3 have q4: "announces [] w1 (print_lcd [] 2 w3)" by (rule announces_quiet_trans)
        from stop [OF q2, of r] stop [OF q3, of e] more [OF q4] True show ?thesis
          by (simp add: a t r)
      next
        case False
        with n0 ne stop [of w1 ret] show ?thesis by (simp add: a)
      qed
    qed
  qed
qed

lemma turn_to_loop_no_store:
  "snd (fst (turn_to_loop c b pos d cw False ab cur i p1 p2 w)) = None"
proof (induction i p1 p2 w rule: turn_to_loop_induct [where cur = cur and pos = pos])
  case (iter i p1 p2 w)
  show ?case
  proof (cases rule: turn_to_loop_cases [of i cur pos c b d cw False ab p1 p2 w])
    case finished
    then show ?thesis by simp
  next
    case aborted
    then show ?thesis by simp
  next
    case (stopped r v w2)
    from stopped(3) have "v = None"
      by (auto simp add: check_scale_def ads1231_get_noblock_def Let_def
            split: if_splits prod.splits)
    with stopped(4) show ?thesis by simp
  next
    case (continue p1' p2' w2)
    with iter [OF continue(1), of p1' p2' "writeMicroseconds i (delay d w2)"]
    show ?thesis by simp
  qed
qed

lemma turn_to_no_store: "snd (fst (turn_to c b pos d cw False ab w)) = None"
  by (simp add: turn_to.simps Let_def turn_to_loop_no_store)

lemma turn_to_success_reach:
  assumes "fst (fst (turn_to c b pos d cw False ab w)) = NO_ERROR"
  shows "servo_us (snd (turn_to c b pos d cw False ab w)) = pos"
proof -
  from assms have r: "in_servo_range pos"
    by (auto simp add: turn_to.simps in_servo_range_def split: if_splits)
  from assms turn_to_no_store [of c b pos d cw ab w]
  have "fst (turn_to c b pos d cw False ab w) = (NO_ERROR, None)"
    by (cases "fst (turn_to c b pos d cw False ab w)") simp
  with r show ?thesis by (rule turn_to_reach(1))
qed




lemma pour_announces:
  "\<exists>k x. announces (replicate k x) w (snd (pour fuel c b req w))
        \<and> (0 < k \<longrightarrow> fst (pour_baseline fuel c b 0 w) = Some (Break x))"
proof -
  obtain y w1 where pb: "pour_baseline fuel c b 0 w = (y, w1)"
    by (cases "pour_baseline fuel c b 0 w")
  from pour_baseline_quiet [of w fuel c b 0] pb have a1: "announces [] w w1" by simp
  have quiet: "\<exists>k x. announces (replicate k x) w w1
        \<and> (0 < k \<longrightarrow> fst (pour_baseline fuel c b 0 w) = Some (Break x))"
    using a1 by (intro exI [of _ 0]) simp
  show ?thesis
  proof (cases y)
    case None
    with quiet show ?thesis by (simp add: pour_def pb)
  next
    case (Some e)
    show ?thesis
    proof (cases e)
      case (Return r)
      with Some quiet show ?thesis by (simp add: pour_def pb)
    next
      case (Break ow)
      obtain z w2 where pl: "pour_loop fuel c b req ow w1 = (z, w2)"
        by (cases "pour_loop fuel c b req ow w1")
      obtain r w3 where tp: "turn_to_pause_pos c b (TURN_UP_DELAY c) w2 = (r, w3)"
        by (cases "turn_to_pause_pos c b (TURN_UP_DELAY c) w2")
      obtain r' g w4 where gg: "ads1231_get_grams w3 = ((r', g), w4)"
        by (cases "ads1231_get_grams w3") auto
      from pour_loop_announces [of ow w1 fuel c b req] pl
      obtain k where a2: "announces (replicate k ow) w1 w2" by auto
      from announces_turn_to_pause_pos [of w2 c b "TURN_UP_DELAY c"] tp
      have a3: "announces [] w2 w3" by simp
      from announces_external(2) [of w3] gg have a4: "announces [] w3 w4" by simp
      from announces_trans [OF a1 a2] have b2: "announces (replicate k ow) w w2" by simp
      from announces_trans [OF b2 a3] have b3: "announces (replicate k ow) w w3" by simp
      from announces_trans [OF b3 a4] have b4: "announces (replicate k ow) w w4" by simp
      have "snd (pour fuel c b req w) = w2 \<or> snd (pour fuel c b req w) = w3
          \<or> snd (pour fuel c b req w) = w4"
        using Some Break
        by (auto simp add: pour_def pb pl tp gg split: option.splits loop_exit.splits)
      with b2 b3 b4 have "announces (replicate k ow) w (snd (pour fuel c b req w))"
        by auto
      with Some Break pb show ?thesis
        by (intro exI [of _ k] exI [of _ ow]) simp
    qed
  qed
qed

lemma pour_loop_first:
  "take 1 (new_events w (snd (pour_loop (Suc n) c b req ow w))) = [MsgPouring (number b) ow]"
proof -
  obtain ret w1 where a: "pour_attempt c b req ow w = (ret, w1)"
    by (cases "pour_attempt c b req ow w")
  from pour_attempt_first [of w c b req ow] a
  have f: "take 1 (new_events w w1) = [MsgPouring (number b) ow]" by simp
  from announces_pour_attempt [of ow w c b req] a
  obtain evs where e1: "events w1 = events w @ evs"
    by (auto simp add: announces_def)
  with f have f1: "take 1 evs = [MsgPouring (number b) ow]"
    by (simp add: new_events_append)
  from pour_loop_announces [of ow w "Suc n" c b req]
  obtain evs' where e': "events (snd (pour_loop (Suc n) c b req ow w)) = events w @ evs'"
    by (auto simp add: announces_def)
  have "announces [] w1 (snd (pour_loop (Suc n) c b req ow w))
        \<or> (\<exists>w4 k. announces [] w1 w4
              \<and> announces (replicate k ow) w4 (snd (pour_loop (Suc n) c b req ow w)))"
  proof -
    let ?e = "ERROR_MSG BOTTLE_EMPTY (Some (number b)) w1"
    let ?t = "turn_to c b (pos_up b + BOTTLE_EMPTY_POS_OFFSET c) (TURN_UP_DELAY c)
                    False False (ABORTCHECK_DEFAULT c) ?e"
    let ?r = "wait_for_resume (snd ?t)"
    let ?l = "print_lcd [] 2 (snd ?r)"
    let ?e' = "ERROR_MSG WHERE_THE_FUCK_IS_THE_CUP None w1"
    let ?t' = "turn_to_pause_pos c b (FAST_TURN_UP_DELAY c) ?e'"
    let ?r' = "wait_for_cup (snd ?t')"
    let ?l' = "print_lcd [] 2 (snd ?r')"
    have "announces [] w1 ?e" by (rule announces_external)
    moreover have "announces [] ?e (snd ?t)" by (rule announces_turn_to)
    ultimately have q2: "announces [] w1 (snd ?t)" by (rule announces_quiet_trans)
    have "announces [] (snd ?t) (snd ?r)" by (rule announces_external)
    with q2 have q3: "announces [] w1 (snd ?r)" by (rule announces_quiet_trans)
    have "announces [] (snd ?r) ?l" by (rule announces_external)
    with q3 have q4: "announces [] w1 ?l" by (rule announces_quiet_trans)
    have "announces [] w1 ?e'" by (rule announces_external)
    moreover have "announces [] ?e' (snd ?t')" by (rule announces_turn_to_pause_pos)
    ultimately have q2': "announces [] w1 (snd ?t')" by (rule announces_quiet_trans)
    have "announces [] (snd ?t') (snd ?r')" by (rule announces_external)
    with q2' have q3': "announces [] w1 (snd ?r')" by (rule announces_quiet_trans)
    have "announces [] (snd ?r') ?l'" by (rule announces_external)
    with q3' have q4': "announces [] w1 ?l'" by (rule announces_quiet_trans)
    from pour_loop_announces [of ow ?l n c b req]
    obtain k where k: "announces (replicate k ow) ?l (snd (pour_loop n c b req ow ?l))"
      by blast
    from pour_loop_announces [of ow ?l' n c b req]
    obtain k' where k': "announces (replicate k' ow) ?l' (snd (pour_loop n c b req ow ?l'))"
      by blast
    have "snd (pour_loop (Suc n) c b req ow w) \<in> {w1, snd ?t, snd ?r, snd ?t', snd ?r',
        snd (pour_loop n c b req ow ?l), snd (pour_loop n c b req ow ?l')}"
      by (auto simp add: a split: prod.splits)
    with q2 q3 q4 q2' q3' q4' k k' show ?thesis
      by (elim insertE) (auto intro: announces_refl)
  qed
  then obtain evs2 where "events (snd (pour_loop (Suc n) c b req ow w)) = events w1 @ evs2"
    by (auto simp add: announces_def)
  with e1 have "events (snd (pour_loop (Suc n) c b req ow w)) = events w @ (evs @ evs2)"
    by simp
  from new_events_append [OF this] f1 show ?thesis
    by (cases evs) auto
qed




section \<open>The amount measured by a successful pour\<close>



section \<open>No pouring below the presence threshold\<close>

text \<open>
  Whatever \<open>pour\<close> does (for every amount of fuel, that is, up to every point of a
  run), each \<open>POURING\<close> message it has emitted announces a baseline of at least
  \<open>WEIGHT_EPSILON\<close>, and it has emitted none unless the first loop was left by its
  \<open>break\<close>. The first loop is left by \<open>break\<close> only with a baseline of at least
  \<open>WEIGHT_EPSILON\<close> and emits no \<open>POURING\<close> message itself. Every iteration of the
  second loop begins with its \<open>POURING\<close> message, so no tilt down of the second loop
  comes before such a message.
\<close>

lemma pour_announces_sufficient_baseline:
  "list_all (\<lambda>x. WEIGHT_EPSILON c \<le> x)
      (pouring_weights (new_events w (snd (pour fuel c b requested_amount w))))
   \<and> ((\<forall>x. fst (pour_baseline fuel c b 0 w) \<noteq> Some (Break x)) \<longrightarrow>
        pouring_weights (new_events w (snd (pour fuel c b requested_amount w))) = [])
   \<and> (\<forall>x. fst (pour_baseline fuel c b 0 w) = Some (Break x) \<longrightarrow>
        WEIGHT_EPSILON c \<le> x
        \<and> pouring_weights (new_events w (snd (pour_baseline fuel c b 0 w))) = [])
   \<and> take 1 (new_events w' (snd (pour_loop (Suc n) c b requested_amount baseline w')))
        = [MsgPouring (number b) baseline]"
proof (intro conjI)
  from pour_announces [of w fuel c b requested_amount]
  obtain k x where a: "announces (replicate k x) w (snd (pour fuel c b requested_amount w))"
    and b: "0 < k \<longrightarrow> fst (pour_baseline fuel c b 0 w) = Some (Break x)"
    by blast
  note e = announces_new_events [OF a]
  from pour_baseline_quiet [of w fuel c b 0] b have "0 < k \<longrightarrow> WEIGHT_EPSILON c \<le> x"
    by blast
  then show "list_all (\<lambda>x. WEIGHT_EPSILON c \<le> x)
      (pouring_weights (new_events w (snd (pour fuel c b requested_amount w))))"
    by (auto simp add: e list_all_iff)
  from b show "(\<forall>x. fst (pour_baseline fuel c b 0 w) \<noteq> Some (Break x)) \<longrightarrow>
        pouring_weights (new_events w (snd (pour fuel c b requested_amount w))) = []"
    by (auto simp add: e)
next
  from pour_baseline_quiet [of w fuel c b 0]
  show "\<forall>x. fst (pour_baseline fuel c b 0 w) = Some (Break x) \<longrightarrow>
        WEIGHT_EPSILON c \<le> x
        \<and> pouring_weights (new_events w (snd (pour_baseline fuel c b 0 w))) = []"
    by (auto dest: announces_new_events)
next
  show "take 1 (new_events w' (snd (pour_loop (Suc n) c b requested_amount baseline w')))
        = [MsgPouring (number b) baseline]"
    by (rule pour_loop_first)
qed

text \<open>
  The measurement step of the first loop is \<open>turn_to (below_pause, \<dots>, &orig_weight)\<close>.
  Once the servo stands at \<open>below_pause\<close>, that call returns 0 at
  \<open>if (pos == current_pos) return 0;\<close> without reading the scale and without storing
  to \<open>orig_weight\<close>: the step leaves the baseline and the surroundings as they are.
\<close>

lemma measure_baseline_in_place:
  assumes "in_servo_range (c_div2 (pos_down b + get_pause_pos b))"
    and "servo_us w = c_div2 (pos_down b + get_pause_pos b)"
  shows "measure_baseline c b ow w = ((NO_ERROR, ow), w)"
  using assms
  by (simp add: measure_baseline_def turn_to.simps in_servo_range_def readMicroseconds_def
        Let_def)

text \<open>
  So with the servo at \<open>below_pause\<close>, a baseline below \<open>WEIGHT_EPSILON\<close> and a
  \<open>wait_for_cup\<close> that keeps reporting a cup, the first loop never ends: with every
  amount of fuel it runs out of fuel, and all it has done is to call \<open>wait_for_cup\<close>
  once per iteration.
\<close>

lemma pour_baseline_stuck:
  assumes "in_servo_range (c_div2 (pos_down b + get_pause_pos b))"
    and "servo_us w = c_div2 (pos_down b + get_pause_pos b)"
    and "ow < WEIGHT_EPSILON c"
    and "\<forall>k. cup_in w k = NO_ERROR"
  shows "fst (pour_baseline n c b ow w) = None
       \<and> new_events w (snd (pour_baseline n c b ow w)) = replicate n (WaitForCup NO_ERROR)"
  using assms(2,4)
proof (induction n arbitrary: w)
  case 0
  show ?case by simp
next
  case (Suc n)
  obtain w3 where c: "wait_for_cup w = (NO_ERROR, w3)"
    using Suc.prems(2) by (simp add: wait_for_cup_def Let_def)
  then have e3: "events w3 = events w @ [WaitForCup NO_ERROR]"
    and s3: "servo_us w3 = c_div2 (pos_down b + get_pause_pos b)"
    and c3: "\<forall>k. cup_in w3 k = NO_ERROR"
    using Suc.prems by (auto simp add: wait_for_cup_def emit_def Let_def)
  from Suc.IH [OF s3 c3] have IH: "fst (pour_baseline n c b ow w3) = None"
    "new_events w3 (snd (pour_baseline n c b ow w3)) = replicate n (WaitForCup NO_ERROR)"
    by blast+
  from pour_baseline_quiet [of w3 n c b ow]
  have "\<exists>evs. events (snd (pour_baseline n c b ow w3)) = events w3 @ evs"
    by (auto simp add: announces_def)
  from new_events_trans [OF e3 this] IH(2)
  have n: "new_events w (snd (pour_baseline n c b ow w3))
      = replicate (Suc n) (WaitForCup NO_ERROR)"
    by simp
  have "pour_baseline (Suc n) c b ow w = pour_baseline n c b ow w3"
    using assms(3) c
    by (simp add: measure_baseline_in_place [OF assms(1) Suc.prems(1)])
  with IH(1) n show ?case by simp
qed

text \<open>
  Claim C10. The first half of the claim holds (\<open>pour_announces_sufficient_baseline\<close>):
  no \<open>POURING\<close> message and no tilt down of the pouring loop comes with a baseline
  below \<open>WEIGHT_EPSILON\<close>. The second half does not hold of the code in the case the
  claim names. In the example the servo starts at the pause position 1501, one step above
  \<open>below_pause\<close> = 1502, the scale has no sample ready during that step, the blocking
  stable read that follows \<open>WEIGHT_NOT_STABLE\<close> reports success with 3 grams, below
  \<open>WEIGHT_EPSILON\<close> = 10, and \<open>wait_for_cup\<close> reports a cup every time; the next stable
  reading of the scale would be 50 grams. The measurement step thus reports neither a
  failure nor a missing cup and establishes the baseline 3. From then on, for every
  amount of fuel, \<open>pour\<close> has not returned, and after the first measurement (abort poll,
  non-blocking read, delay, servo step to 1502, stable read of 3 grams) its only effects
  are calls of \<open>wait_for_cup\<close>: the scale is never read again, the baseline stays 3 and
  the pouring loop is never reached.
\<close>

theorem pour_never_remeasures_low_baseline:
  "fst (measure_baseline demo_config demo_bottle 0 cupless_world) = (NO_ERROR, 3) \<and>
   3 < WEIGHT_EPSILON demo_config \<and>
   stable_in (snd (measure_baseline demo_config demo_bottle 0 cupless_world)) 0
     = (NO_ERROR, 50) \<and>
   (\<forall>n. fst (pour (Suc n) demo_config demo_bottle 30 cupless_world) = None \<and>
        new_events cupless_world (snd (pour (Suc n) demo_config demo_bottle 30 cupless_world))
          = [CheckAborted False, GetNoblock ADS1231_WOULD_BLOCK 0, Delay 5, ServoWrite 1502,
             GetStableGrams NO_ERROR 3]
            @ replicate (Suc n) (WaitForCup NO_ERROR))"
proof -
  let ?m = "measure_baseline demo_config demo_bottle 0 cupless_world"
  let ?w3 = "snd (wait_for_cup (snd ?m))"
  have m: "fst ?m = (NO_ERROR, 3)"
    and ev: "events ?w3 = [CheckAborted False, GetNoblock ADS1231_WOULD_BLOCK 0, Delay 5,
               ServoWrite 1502, GetStableGrams NO_ERROR 3, WaitForCup NO_ERROR]"
    and st: "stable_in (snd ?m) 0 = (NO_ERROR, 50)"
    and c: "fst (wait_for_cup (snd ?m)) = NO_ERROR"
    and r: "in_servo_range (c_div2 (pos_down demo_bottle + get_pause_pos demo_bottle))"
    and s: "servo_us ?w3 = c_div2 (pos_down demo_bottle + get_pause_pos demo_bottle)"
    and lt: "3 < WEIGHT_EPSILON demo_config"
    and cup: "\<forall>k. cup_in ?w3 k = NO_ERROR"
    and e0: "events cupless_world = []"
    by (simp_all add: pour_defs run_defs demo_defs in_servo_range_def cupless_world_def)
  have "fst (pour (Suc n) demo_config demo_bottle 30 cupless_world) = None \<and>
        new_events cupless_world (snd (pour (Suc n) demo_config demo_bottle 30 cupless_world))
          = [CheckAborted False, GetNoblock ADS1231_WOULD_BLOCK 0, Delay 5, ServoWrite 1502,
             GetStableGrams NO_ERROR 3]
            @ replicate (Suc n) (WaitForCup NO_ERROR)" for n
  proof -
    have step: "pour_baseline (Suc n) demo_config demo_bottle 0 cupless_world
                 = pour_baseline n demo_config demo_bottle 3 ?w3"
      using m c lt
      by (cases ?m; cases "wait_for_cup (snd ?m)") auto
    from pour_baseline_stuck [OF r s lt cup, of n]
    have stuck: "fst (pour_baseline n demo_config demo_bottle 3 ?w3) = None"
      "new_events ?w3 (snd (pour_baseline n demo_config demo_bottle 3 ?w3))
         = replicate n (WaitForCup NO_ERROR)"
      by blast+
    from pour_baseline_quiet [of ?w3 n demo_config demo_bottle 3]
    obtain evs where evs: "events (snd (pour_baseline n demo_config demo_bottle 3 ?w3))
        = events ?w3 @ evs"
      by (auto simp add: announces_def)
    with stuck(2) have "evs = replicate n (WaitForCup NO_ERROR)"
      by (simp add: new_events_def)
    with evs ev e0
    have "new_events cupless_world (snd (pour_baseline n demo_config demo_bottle 3 ?w3))
          = [CheckAborted False, GetNoblock ADS1231_WOULD_BLOCK 0, Delay 5, ServoWrite 1502,
             GetStableGrams NO_ERROR 3] @ replicate (Suc n) (WaitForCup NO_ERROR)"
      by (simp add: new_events_def)
    moreover have "pour (Suc n) demo_config demo_bottle 30 cupless_world
          = (None, snd (pour_baseline n demo_config demo_bottle 3 ?w3))"
      using stuck(1)
      by (cases "pour_baseline n demo_config demo_bottle 3 ?w3")
         (simp add: pour_def step del: pour_baseline.simps)
    ultimately show ?thesis by simp
  qed
  with m lt st show ?thesis by simp
qed

section \<open>Recovery from an empty bottle\<close>

text \<open>
  Claim C5. For every iteration of the second loop of \<open>pour\<close> whose attempt (status
  message, tilt down, wait for the weight) ends with \<open>BOTTLE_EMPTY\<close>: \<open>pour\<close> emits
  the error message for \<open>BOTTLE_EMPTY\<close> with the number of the bottle and turns towards
  \<open>pos_up + BOTTLE_EMPTY_POS_OFFSET\<close>, with no other effects than those of a turn. If
  the turn fails, its error is returned; otherwise the servo stands at
  \<open>pos_up + BOTTLE_EMPTY_POS_OFFSET\<close> and \<open>pour\<close> waits for the resume command. If
  the wait ends with an error (an abort), that error is returned; otherwise the display
  line is cleared and the loop is run again from its top, where the first effect of
  every iteration is the \<open>POURING\<close> message with the same bottle number and baseline.
\<close>

theorem pour_bottle_empty_recovery:
  assumes "pour_attempt c b requested_amount orig_weight w = (BOTTLE_EMPTY, w1)"
    and "turn_to c b (pos_up b + BOTTLE_EMPTY_POS_OFFSET c) (TURN_UP_DELAY c) False False
           (ABORTCHECK_DEFAULT c) (ERROR_MSG BOTTLE_EMPTY (Some (number b)) w1) = ((r, v), w2)"
    and "wait_for_resume w2 = (e, w3)"
  shows "take 1 (new_events w1 w2) = [ErrorMsg BOTTLE_EMPTY (Some (number b))]
       \<and> list_all turn_event (drop 1 (new_events w1 w2))
       \<and> (r \<noteq> NO_ERROR \<longrightarrow>
            pour_loop (Suc fuel) c b requested_amount orig_weight w = (Some (Return r), w2))
       \<and> (r = NO_ERROR \<longrightarrow>
            servo_us w2 = pos_up b + BOTTLE_EMPTY_POS_OFFSET c
            \<and> new_events w2 w3 = [WaitForResume e]
            \<and> (e \<noteq> NO_ERROR \<longrightarrow>
                 pour_loop (Suc fuel) c b requested_amount orig_weight w = (Some (Return e), w3))
            \<and> (e = NO_ERROR \<longrightarrow>
                 pour_loop (Suc fuel) c b requested_amount orig_weight w
                   = pour_loop fuel c b requested_amount orig_weight (print_lcd [] 2 w3)
                 \<and> new_events w3 (print_lcd [] 2 w3) = [PrintLcd [] 2]
                 \<and> take 1 (new_events (print_lcd [] 2 w3)
                        (snd (pour_loop (Suc n) c b requested_amount orig_weight
                               (print_lcd [] 2 w3))))
                     = [MsgPouring (number b) orig_weight]))"
proof -
  let ?e = "ERROR_MSG BOTTLE_EMPTY (Some (number b)) w1"
  from turn_to_extends [of c b "pos_up b + BOTTLE_EMPTY_POS_OFFSET c" "TURN_UP_DELAY c"
      False False "ABORTCHECK_DEFAULT c" ?e] assms(2)
  obtain evs where evs: "events w2 = events ?e @ evs" "list_all turn_event evs"
    by auto
  then have "events w2 = events w1 @ (ErrorMsg BOTTLE_EMPTY (Some (number b)) # evs)"
    by (simp add: ERROR_MSG_def emit_def)
  from new_events_append [OF this]
  have 1: "new_events w1 w2 = ErrorMsg BOTTLE_EMPTY (Some (number b)) # evs" .
  from assms(3) have 2: "new_events w2 w3 = [WaitForResume e]"
    by (auto simp add: wait_for_resume_def emit_def new_events_def Let_def)
  have 3: "new_events w3 (print_lcd [] 2 w3) = [PrintLcd [] 2]"
    by (simp add: print_lcd_def emit_def new_events_def)
  have 4: "servo_us w2 = pos_up b + BOTTLE_EMPTY_POS_OFFSET c" if "r = NO_ERROR"
    using turn_to_success_reach [of c b "pos_up b + BOTTLE_EMPTY_POS_OFFSET c" "TURN_UP_DELAY c"
        False "ABORTCHECK_DEFAULT c" ?e] assms(2) that
    by simp
  have 5: "pour_loop (Suc fuel) c b requested_amount orig_weight w
            = (if r \<noteq> NO_ERROR then (Some (Return r), w2)
               else if e \<noteq> NO_ERROR then (Some (Return e), w3)
               else pour_loop fuel c b requested_amount orig_weight (print_lcd [] 2 w3))"
    by (simp add: assms)
  from 1 2 3 4 evs(2) show ?thesis
    unfolding 5 by (simp add: pour_loop_first [unfolded One_nat_def] del: pour_loop.simps)
qed

theorem pour_bottle_empty_recovery_witness:
  "pour_attempt demo_config demo_bottle 30 50 empty_world
     = (BOTTLE_EMPTY, snd (pour_attempt demo_config demo_bottle 30 50 empty_world)) \<and>
   events (snd (pour_loop (Suc (Suc 0)) demo_config demo_bottle 30 50 empty_world))
     = [MsgPouring 3 50, DelayUntil 30000 75 True BOTTLE_EMPTY,
        ErrorMsg BOTTLE_EMPTY (Some 3),
        CheckAborted False, Delay 4, ServoWrite 1503,
        CheckAborted False, Delay 4, ServoWrite 1502,
        CheckAborted False, Delay 4, ServoWrite 1501,
        CheckAborted False, Delay 4, ServoWrite 1500,
        CheckAborted False, Delay 4, ServoWrite 1499,
        WaitForResume NO_ERROR, PrintLcd [] 2,
        MsgPouring 3 50,
        CheckAborted False, GetNoblock ADS1231_WOULD_BLOCK 0, Delay 5, ServoWrite 1500,
        CheckAborted False, GetNoblock ADS1231_WOULD_BLOCK 0, Delay 5, ServoWrite 1501,
        CheckAborted False, GetNoblock ADS1231_WOULD_BLOCK 0, Delay 5, ServoWrite 1502,
        CheckAborted False, GetNoblock ADS1231_WOULD_BLOCK 0, Delay 5, ServoWrite 1503,
        CheckAborted False, GetNoblock ADS1231_WOULD_BLOCK 0, Delay 5, ServoWrite 1504,
        DelayUntil 30000 75 True NO_ERROR] \<and>
   fst (pour_loop (Suc (Suc 0)) demo_config demo_bottle 30 50 empty_world) = Some (Break ()) \<and>
   pos_up demo_bottle + BOTTLE_EMPTY_POS_OFFSET demo_config = 1499"
  using pour_bottle_empty_recovery [of demo_config demo_bottle 30 50 empty_world
      "snd (pour_attempt demo_config demo_bottle 30 50 empty_world)"
      "fst (fst (turn_to demo_config demo_bottle
          (pos_up demo_bottle + BOTTLE_EMPTY_POS_OFFSET demo_config) (TURN_UP_DELAY demo_config)
          False False (ABORTCHECK_DEFAULT demo_config)
          (ERROR_MSG BOTTLE_EMPTY (Some (number demo_bottle))
             (snd (pour_attempt demo_config demo_bottle 30 50 empty_world)))))"
      "snd (fst (turn_to demo_config demo_bottle
          (pos_up demo_bottle + BOTTLE_EMPTY_POS_OFFSET demo_config) (TURN_UP_DELAY demo_config)
          False False (ABORTCHECK_DEFAULT demo_config)
          (ERROR_MSG BOTTLE_EMPTY (Some (number demo_bottle))
             (snd (pour_attempt demo_config demo_bottle 30 50 empty_world)))))"
      "snd (turn_to demo_config demo_bottle
          (pos_up demo_bottle + BOTTLE_EMPTY_POS_OFFSET demo_config) (TURN_UP_DELAY demo_config)
          False False (ABORTCHECK_DEFAULT demo_config)
          (ERROR_MSG BOTTLE_EMPTY (Some (number demo_bottle))
             (snd (pour_attempt demo_config demo_bottle 30 50 empty_world))))"
      NO_ERROR
      "snd (wait_for_resume (snd (turn_to demo_config demo_bottle
          (pos_up demo_bottle + BOTTLE_EMPTY_POS_OFFSET demo_config) (TURN_UP_DELAY demo_config)
          False False (ABORTCHECK_DEFAULT demo_config)
          (ERROR_MSG BOTTLE_EMPTY (Some (number demo_bottle))
             (snd (pour_attempt demo_config demo_bottle 30 50 empty_world))))))"
      "Suc 0" 0]
  by (simp add: prod_eq_iff pour_defs run_defs demo_defs new_events_def in_servo_range_def empty_world_def)

end
